theory Spec2Isabelle
  imports Complex_Main "HOL-Library.Multiset"
begin

section \<open>The data model of RedBlackTree.ts\<close>

text \<open>
  The source is a pointer program: nodes are JavaScript objects that refer to each other
  through \<open>left\<close>, \<open>right\<close> and \<open>parent\<close>, and one shared sentinel object \<open>NIL\<close> stands for
  every missing child.  The model keeps that: objects live in a store indexed by
  addresses, a reference is an address or \<open>null\<close>, and every method takes the tree object
  and returns the updated one.  Reading a property of \<open>null\<close> raises a \<open>TypeError\<close> in
  JavaScript; the model returns \<open>Inl TypeError\<close> there.  A loop or a recursion that does
  not return is the value \<open>None\<close>.
\<close>

datatype Color = RED | BLACK

datatype error = TypeError

type_synonym ref = "nat option"

text \<open>
  \<open>interface RBNode<T>\<close>.  The sentinel is created with \<open>key: null\<close>, so the key field
  holds \<open>T | null\<close>.
\<close>

record 'a RBNode =
  key :: "'a option"
  color :: Color
  left :: ref
  right :: ref
  parent :: ref

text \<open>
  \<open>class RedBlackTree<T>\<close>: the two private fields, the store of the node objects, and
  the address the next created object receives (object identity in JavaScript: a newly
  created object is different from every existing one).
\<close>

record 'a RedBlackTree =
  heap :: "nat \<Rightarrow> 'a RBNode"
  NIL :: nat
  root :: nat
  fresh :: nat

text \<open>
  The comparison \<open>a < b\<close> of two keys.  The key type is assumed to be totally ordered
  (section 6 of the specification); the source compares the key of the sentinel with
  nothing, every comparison is guarded by a test against \<open>NIL\<close>, and the model gives
  \<open>False\<close> for a comparison with \<open>null\<close>.
\<close>

fun key_lt :: "'a::linorder option \<Rightarrow> 'a option \<Rightarrow> bool" where
  "key_lt (Some a) (Some b) = (a < b)"
| "key_lt _ _ = False"

subsection \<open>Field assignments\<close>

definition set_color :: "'a RedBlackTree \<Rightarrow> nat \<Rightarrow> Color \<Rightarrow> 'a RedBlackTree" where
  "set_color s a c = s\<lparr>heap := (heap s)(a := (heap s a)\<lparr>color := c\<rparr>)\<rparr>"

definition set_left :: "'a RedBlackTree \<Rightarrow> nat \<Rightarrow> ref \<Rightarrow> 'a RedBlackTree" where
  "set_left s a r = s\<lparr>heap := (heap s)(a := (heap s a)\<lparr>left := r\<rparr>)\<rparr>"

definition set_right :: "'a RedBlackTree \<Rightarrow> nat \<Rightarrow> ref \<Rightarrow> 'a RedBlackTree" where
  "set_right s a r = s\<lparr>heap := (heap s)(a := (heap s a)\<lparr>right := r\<rparr>)\<rparr>"

definition set_parent :: "'a RedBlackTree \<Rightarrow> nat \<Rightarrow> ref \<Rightarrow> 'a RedBlackTree" where
  "set_parent s a r = s\<lparr>heap := (heap s)(a := (heap s a)\<lparr>parent := r\<rparr>)\<rparr>"

subsection \<open>Construction\<close>

definition createNilNode :: "'a RBNode" where
  "createNilNode = \<lparr>key = None, color = BLACK, left = None, right = None, parent = None\<rparr>"

text \<open>The constructor: the sentinel is the first object, and the root refers to it.\<close>

definition new_tree :: "'a RedBlackTree" where
  "new_tree = \<lparr>heap = (\<lambda>_. createNilNode), NIL = 0, root = 0, fresh = 1\<rparr>"

text \<open>\<open>createNode\<close> returns the address of the new object and the store that holds it.\<close>

definition createNode :: "'a RedBlackTree \<Rightarrow> 'a \<Rightarrow> nat \<times> 'a RedBlackTree" where
  "createNode s k =
     (fresh s,
      s\<lparr>heap := (heap s)(fresh s :=
           \<lparr>key = Some k, color = RED, left = Some (NIL s), right = Some (NIL s),
            parent = None\<rparr>),
        fresh := Suc (fresh s)\<rparr>)"

subsection \<open>Rotations\<close>

text \<open>
  \<open>leftRotate(x)\<close>, statement by statement.  \<open>y = x.right!\<close> is not checked at run time;
  the next statement reads \<open>y.left\<close> and raises when \<open>y\<close> is \<open>null\<close>.  Likewise
  \<open>y.left.parent = x\<close> raises when \<open>y.left\<close> is \<open>null\<close>, which is different from \<open>NIL\<close>.
\<close>

definition leftRotate :: "'a RedBlackTree \<Rightarrow> nat \<Rightarrow> error + 'a RedBlackTree" where
  "leftRotate s x =
     (case right (heap s x) of
        None \<Rightarrow> Inl TypeError
      | Some y \<Rightarrow>
          let s1 = set_right s x (left (heap s y)) in
          (case (if left (heap s1 y) \<noteq> Some (NIL s1)
                 then (case left (heap s1 y) of
                         None \<Rightarrow> Inl TypeError
                       | Some yl \<Rightarrow> Inr (set_parent s1 yl (Some x)))
                 else Inr s1) of
             Inl e \<Rightarrow> Inl e
           | Inr s2 \<Rightarrow>
               let s3 = set_parent s2 y (parent (heap s2 x));
                   s4 = (case parent (heap s3 x) of
                           None \<Rightarrow> s3\<lparr>root := y\<rparr>
                         | Some xp \<Rightarrow>
                             if Some x = left (heap s3 xp) then set_left s3 xp (Some y)
                             else set_right s3 xp (Some y));
                   s5 = set_left s4 y (Some x)
               in Inr (set_parent s5 x (Some y))))"

definition rightRotate :: "'a RedBlackTree \<Rightarrow> nat \<Rightarrow> error + 'a RedBlackTree" where
  "rightRotate s x =
     (case left (heap s x) of
        None \<Rightarrow> Inl TypeError
      | Some y \<Rightarrow>
          let s1 = set_left s x (right (heap s y)) in
          (case (if right (heap s1 y) \<noteq> Some (NIL s1)
                 then (case right (heap s1 y) of
                         None \<Rightarrow> Inl TypeError
                       | Some yr \<Rightarrow> Inr (set_parent s1 yr (Some x)))
                 else Inr s1) of
             Inl e \<Rightarrow> Inl e
           | Inr s2 \<Rightarrow>
               let s3 = set_parent s2 y (parent (heap s2 x));
                   s4 = (case parent (heap s3 x) of
                           None \<Rightarrow> s3\<lparr>root := y\<rparr>
                         | Some xp \<Rightarrow>
                             if Some x = right (heap s3 xp) then set_right s3 xp (Some y)
                             else set_left s3 xp (Some y));
                   s5 = set_right s4 y (Some x)
               in Inr (set_parent s5 x (Some y))))"

subsection \<open>The insert fix-up\<close>

text \<open>
  Case 3 of the branch where \<open>k.parent\<close> is the right child of the grandparent (lines
  140 to 146), and its mirror image (lines 165 to 171).  A reference that the source
  reads again after a colour assignment is bound once: a colour assignment changes no
  reference.
\<close>

definition case3_right :: "'a RedBlackTree \<Rightarrow> nat \<Rightarrow> error + 'a RedBlackTree" where
  "case3_right s k =
     (case parent (heap s k) of
        None \<Rightarrow> Inr s
      | Some p \<Rightarrow>
          let s1 = set_color s p BLACK in
          (case parent (heap s1 p) of
             None \<Rightarrow> Inr s1
           | Some g \<Rightarrow> leftRotate (set_color s1 g RED) g))"

definition case3_left :: "'a RedBlackTree \<Rightarrow> nat \<Rightarrow> error + 'a RedBlackTree" where
  "case3_left s k =
     (case parent (heap s k) of
        None \<Rightarrow> Inr s
      | Some p \<Rightarrow>
          let s1 = set_color s p BLACK in
          (case parent (heap s1 p) of
             None \<Rightarrow> Inr s1
           | Some g \<Rightarrow> rightRotate (set_color s1 g RED) g))"

text \<open>
  One iteration of the \<open>while\<close> loop of \<open>fixInsert\<close>, from line 123 to line 173: the
  updated tree and the new value of \<open>k\<close>.  \<open>k.parent.parent!\<close> is dereferenced by the
  first test, so a missing grandparent raises there.
\<close>

definition fixInsert_body :: "'a RedBlackTree \<Rightarrow> nat \<Rightarrow> error + ('a RedBlackTree \<times> nat)" where
  "fixInsert_body s k =
     (case parent (heap s k) of
        None \<Rightarrow> Inl TypeError
      | Some p \<Rightarrow>
     (case parent (heap s p) of
        None \<Rightarrow> Inl TypeError
      | Some g \<Rightarrow>
          if Some p = right (heap s g) then
            (let u = left (heap s g) in
             if (case u of None \<Rightarrow> False | Some ua \<Rightarrow> color (heap s ua) = RED) then
               (case u of
                  None \<Rightarrow> Inl TypeError
                | Some ua \<Rightarrow>
                    Inr (set_color (set_color (set_color s ua BLACK) p BLACK) g RED, g))
             else
               (case (if Some k = left (heap s p)
                      then (case rightRotate s p of
                              Inl e \<Rightarrow> Inl e
                            | Inr s1 \<Rightarrow> Inr (s1, p))
                      else Inr (s, k)) of
                  Inl e \<Rightarrow> Inl e
                | Inr (s1, k1) \<Rightarrow>
                    (case case3_right s1 k1 of
                       Inl e \<Rightarrow> Inl e
                     | Inr s2 \<Rightarrow> Inr (s2, k1))))
          else
            (let u = right (heap s g) in
             if (case u of None \<Rightarrow> False | Some ua \<Rightarrow> color (heap s ua) = RED) then
               (case u of
                  None \<Rightarrow> Inl TypeError
                | Some ua \<Rightarrow>
                    Inr (set_color (set_color (set_color s ua BLACK) p BLACK) g RED, g))
             else
               (case (if Some k = right (heap s p)
                      then (case leftRotate s p of
                              Inl e \<Rightarrow> Inl e
                            | Inr s1 \<Rightarrow> Inr (s1, p))
                      else Inr (s, k)) of
                  Inl e \<Rightarrow> Inl e
                | Inr (s1, k1) \<Rightarrow>
                    (case case3_left s1 k1 of
                       Inl e \<Rightarrow> Inl e
                     | Inr s2 \<Rightarrow> Inr (s2, k1))))))"

text \<open>
  The loop itself: the test of line 122, one iteration, the \<open>break\<close> of line 175.
\<close>

partial_function (option) fixInsert_loop ::
  "'a RedBlackTree \<Rightarrow> nat \<Rightarrow> (error + 'a RedBlackTree) option" where
  "fixInsert_loop s k =
     (case parent (heap s k) of
        None \<Rightarrow> Some (Inr s)
      | Some p \<Rightarrow>
          if color (heap s p) = RED then
            (case fixInsert_body s k of
               Inl e \<Rightarrow> Some (Inl e)
             | Inr (s1, k1) \<Rightarrow>
                 if k1 = root s1 then Some (Inr s1) else fixInsert_loop s1 k1)
          else Some (Inr s))"

definition fixInsert :: "'a RedBlackTree \<Rightarrow> nat \<Rightarrow> (error + 'a RedBlackTree) option" where
  "fixInsert s k =
     (case fixInsert_loop s k of
        None \<Rightarrow> None
      | Some (Inl e) \<Rightarrow> Some (Inl e)
      | Some (Inr s1) \<Rightarrow> Some (Inr (set_color s1 (root s1) BLACK)))"

subsection \<open>Insertion\<close>

text \<open>
  The descent of lines 79 to 86 with its two variables \<open>y\<close> and \<open>x\<close>; \<open>nk\<close> is
  \<open>newNode.key\<close>.  The result is the final value of \<open>y\<close>.
\<close>

partial_function (option) insert_descend ::
  "'a::linorder RedBlackTree \<Rightarrow> 'a option \<Rightarrow> ref \<Rightarrow> ref \<Rightarrow> (error + ref) option" where
  "insert_descend s nk y x =
     (if x \<noteq> Some (NIL s) then
        (case x of
           None \<Rightarrow> Some (Inl TypeError)
         | Some xa \<Rightarrow>
             if key_lt nk (key (heap s xa)) then insert_descend s nk x (left (heap s xa))
             else insert_descend s nk x (right (heap s xa)))
      else Some (Inr y))"

definition insertRB :: "'a::linorder RedBlackTree \<Rightarrow> 'a \<Rightarrow> (error + 'a RedBlackTree) option" where
  "insertRB s k =
     (let (n, s0) = createNode s k in
      case insert_descend s0 (key (heap s0 n)) None (Some (root s0)) of
        None \<Rightarrow> None
      | Some (Inl e) \<Rightarrow> Some (Inl e)
      | Some (Inr y) \<Rightarrow>
          let s1 = set_parent s0 n y;
              s2 = (case y of
                      None \<Rightarrow> s1\<lparr>root := n\<rparr>
                    | Some ya \<Rightarrow>
                        if key_lt (key (heap s1 n)) (key (heap s1 ya))
                        then set_left s1 ya (Some n)
                        else set_right s1 ya (Some n))
          in (case parent (heap s2 n) of
                None \<Rightarrow> Some (Inr (set_color s2 n BLACK))
              | Some p \<Rightarrow>
                  (case parent (heap s2 p) of
                     None \<Rightarrow> Some (Inr s2)
                   | Some g \<Rightarrow> fixInsert s2 n)))"

subsection \<open>Traversals\<close>

text \<open>
  The three recursive helpers push onto the array they are given; the model returns the
  extended array.
\<close>

partial_function (option) preorderTraversalHelper ::
  "'a RedBlackTree \<Rightarrow> ref \<Rightarrow> 'a option list \<Rightarrow> (error + 'a option list) option" where
  "preorderTraversalHelper s node result =
     (if node \<noteq> Some (NIL s) then
        (case node of
           None \<Rightarrow> Some (Inl TypeError)
         | Some a \<Rightarrow>
             Option.bind (preorderTraversalHelper s (left (heap s a)) (result @ [key (heap s a)]))
               (\<lambda>r. case r of
                      Inl e \<Rightarrow> Some (Inl e)
                    | Inr r1 \<Rightarrow> preorderTraversalHelper s (right (heap s a)) r1))
      else Some (Inr result))"

definition preorderTraversal :: "'a RedBlackTree \<Rightarrow> (error + 'a option list) option" where
  "preorderTraversal s = preorderTraversalHelper s (Some (root s)) []"

partial_function (option) inorderTraversalHelper ::
  "'a RedBlackTree \<Rightarrow> ref \<Rightarrow> 'a option list \<Rightarrow> (error + 'a option list) option" where
  "inorderTraversalHelper s node result =
     (if node \<noteq> Some (NIL s) then
        (case node of
           None \<Rightarrow> Some (Inl TypeError)
         | Some a \<Rightarrow>
             Option.bind (inorderTraversalHelper s (left (heap s a)) result)
               (\<lambda>r. case r of
                      Inl e \<Rightarrow> Some (Inl e)
                    | Inr r1 \<Rightarrow>
                        inorderTraversalHelper s (right (heap s a)) (r1 @ [key (heap s a)])))
      else Some (Inr result))"

definition inorderTraversal :: "'a RedBlackTree \<Rightarrow> (error + 'a option list) option" where
  "inorderTraversal s = inorderTraversalHelper s (Some (root s)) []"

partial_function (option) postorderTraversalHelper ::
  "'a RedBlackTree \<Rightarrow> ref \<Rightarrow> 'a option list \<Rightarrow> (error + 'a option list) option" where
  "postorderTraversalHelper s node result =
     (if node \<noteq> Some (NIL s) then
        (case node of
           None \<Rightarrow> Some (Inl TypeError)
         | Some a \<Rightarrow>
             Option.bind (postorderTraversalHelper s (left (heap s a)) result)
               (\<lambda>r. case r of
                      Inl e \<Rightarrow> Some (Inl e)
                    | Inr r1 \<Rightarrow>
                        Option.bind (postorderTraversalHelper s (right (heap s a)) r1)
                          (\<lambda>r'. case r' of
                                  Inl e \<Rightarrow> Some (Inl e)
                                | Inr r2 \<Rightarrow> Some (Inr (r2 @ [key (heap s a)])))))
      else Some (Inr result))"

definition postorderTraversal :: "'a RedBlackTree \<Rightarrow> (error + 'a option list) option" where
  "postorderTraversal s = postorderTraversalHelper s (Some (root s)) []"

text \<open>The queue loop of \<open>levelOrderTraversal\<close> (lines 317 to 328).\<close>

partial_function (option) levelOrder_loop ::
  "'a RedBlackTree \<Rightarrow> ref list \<Rightarrow> 'a option list \<Rightarrow> (error + 'a option list) option" where
  "levelOrder_loop s queue result =
     (case queue of
        [] \<Rightarrow> Some (Inr result)
      | node # rest \<Rightarrow>
          (case node of
             None \<Rightarrow> Some (Inl TypeError)
           | Some a \<Rightarrow>
               let q1 = (if left (heap s a) \<noteq> Some (NIL s) then rest @ [left (heap s a)]
                         else rest);
                   q2 = (if right (heap s a) \<noteq> Some (NIL s) then q1 @ [right (heap s a)]
                         else q1)
               in levelOrder_loop s q2 (result @ [key (heap s a)])))"

definition levelOrderTraversal :: "'a RedBlackTree \<Rightarrow> (error + 'a option list) option" where
  "levelOrderTraversal s =
     (if root s = NIL s then Some (Inr []) else levelOrder_loop s [Some (root s)] [])"

subsection \<open>Queries\<close>

partial_function (option) getDepthHelper ::
  "'a RedBlackTree \<Rightarrow> ref \<Rightarrow> (error + nat) option" where
  "getDepthHelper s node =
     (if node = Some (NIL s) then Some (Inr 0)
      else
        (case node of
           None \<Rightarrow> Some (Inl TypeError)
         | Some a \<Rightarrow>
             Option.bind (getDepthHelper s (left (heap s a)))
               (\<lambda>r. case r of
                      Inl e \<Rightarrow> Some (Inl e)
                    | Inr leftDepth \<Rightarrow>
                        Option.bind (getDepthHelper s (right (heap s a)))
                          (\<lambda>r'. case r' of
                                  Inl e \<Rightarrow> Some (Inl e)
                                | Inr rightDepth \<Rightarrow>
                                    Some (Inr (max leftDepth rightDepth + 1))))))"

definition getDepth :: "'a RedBlackTree \<Rightarrow> (error + nat) option" where
  "getDepth s = getDepthHelper s (Some (root s))"

partial_function (option) searchHelper ::
  "'a::linorder RedBlackTree \<Rightarrow> ref \<Rightarrow> 'a \<Rightarrow> (error + nat) option" where
  "searchHelper s node k =
     (if node = Some (NIL s) then Some (Inr (NIL s))
      else
        (case node of
           None \<Rightarrow> Some (Inl TypeError)
         | Some a \<Rightarrow>
             if Some k = key (heap s a) then Some (Inr a)
             else if key_lt (Some k) (key (heap s a)) then searchHelper s (left (heap s a)) k
             else searchHelper s (right (heap s a)) k))"

definition search :: "'a::linorder RedBlackTree \<Rightarrow> 'a \<Rightarrow> (error + nat) option" where
  "search s k = searchHelper s (Some (root s)) k"

text \<open>
  \<open>getMinimumNode\<close>: the loop variable \<open>current\<close> may become \<open>null\<close>, since the test
  compares \<open>current.left\<close> with \<open>NIL\<close> only.
\<close>

partial_function (option) getMinimumNode ::
  "'a RedBlackTree \<Rightarrow> ref \<Rightarrow> (error + nat) option" where
  "getMinimumNode s current =
     (case current of
        None \<Rightarrow> Some (Inl TypeError)
      | Some a \<Rightarrow>
          if left (heap s a) \<noteq> Some (NIL s) then getMinimumNode s (left (heap s a))
          else Some (Inr a))"

definition getMinimum :: "'a RedBlackTree \<Rightarrow> (error + 'a option) option" where
  "getMinimum s =
     (case getMinimumNode s (Some (root s)) of
        None \<Rightarrow> None
      | Some (Inl e) \<Rightarrow> Some (Inl e)
      | Some (Inr node) \<Rightarrow> Some (Inr (if node = NIL s then None else key (heap s node))))"

partial_function (option) getMaximumNode ::
  "'a RedBlackTree \<Rightarrow> ref \<Rightarrow> (error + nat) option" where
  "getMaximumNode s current =
     (case current of
        None \<Rightarrow> Some (Inl TypeError)
      | Some a \<Rightarrow>
          if right (heap s a) \<noteq> Some (NIL s) then getMaximumNode s (right (heap s a))
          else Some (Inr a))"

definition getMaximum :: "'a RedBlackTree \<Rightarrow> (error + 'a option) option" where
  "getMaximum s =
     (case getMaximumNode s (Some (root s)) of
        None \<Rightarrow> None
      | Some (Inl e) \<Rightarrow> Some (Inl e)
      | Some (Inr node) \<Rightarrow> Some (Inr (if node = NIL s then None else key (heap s node))))"

definition isEmpty :: "'a RedBlackTree \<Rightarrow> bool" where
  "isEmpty s = (root s = NIL s)"

definition clear :: "'a RedBlackTree \<Rightarrow> 'a RedBlackTree" where
  "clear s = s\<lparr>root := NIL s\<rparr>"

text \<open>The recursion equations are the code equations of the loops.\<close>

declare fixInsert_loop.simps [code]
  insert_descend.simps [code]
  preorderTraversalHelper.simps [code]
  inorderTraversalHelper.simps [code]
  postorderTraversalHelper.simps [code]
  levelOrder_loop.simps [code]
  getDepthHelper.simps [code]
  searchHelper.simps [code]
  getMinimumNode.simps [code]
  getMaximumNode.simps [code]

section \<open>The tree a store represents\<close>

text \<open>
  A tree of the objects: \<open>Tip\<close> stands for a reference to the sentinel, \<open>Bin l a c k r\<close>
  for the object at address \<open>a\<close> with colour \<open>c\<close>, key \<open>k\<close> and the subtrees \<open>l\<close> and
  \<open>r\<close>.  \<open>rep h nil t q\<close> says that the store \<open>h\<close> holds the tree \<open>t\<close> below a parent
  reference \<open>q\<close>: every field of every object of \<open>t\<close> is what the tree says, the
  \<open>parent\<close> fields included.  \<open>represents s t\<close> adds what makes \<open>t\<close> the tree of the
  whole object \<open>s\<close>: the root field, no object occurring twice, the sentinel outside the
  tree and as the constructor made it, every object created before \<open>fresh\<close>.
\<close>

datatype 'a shape = Tip | Bin "'a shape" nat Color 'a "'a shape"

fun addr_of :: "nat \<Rightarrow> 'a shape \<Rightarrow> nat" where
  "addr_of nil Tip = nil"
| "addr_of nil (Bin l a c k r) = a"

fun addrs :: "'a shape \<Rightarrow> nat list" where
  "addrs Tip = []"
| "addrs (Bin l a c k r) = addrs l @ a # addrs r"

fun keys :: "'a shape \<Rightarrow> 'a list" where
  "keys Tip = []"
| "keys (Bin l a c k r) = keys l @ k # keys r"

fun rep :: "(nat \<Rightarrow> 'a RBNode) \<Rightarrow> nat \<Rightarrow> 'a shape \<Rightarrow> ref \<Rightarrow> bool" where
  "rep h nil Tip q = True"
| "rep h nil (Bin l a c k r) q =
     (key (h a) = Some k \<and> color (h a) = c \<and> left (h a) = Some (addr_of nil l)
      \<and> right (h a) = Some (addr_of nil r) \<and> parent (h a) = q
      \<and> rep h nil l (Some a) \<and> rep h nil r (Some a))"

definition represents :: "'a RedBlackTree \<Rightarrow> 'a shape \<Rightarrow> bool" where
  "represents s t =
     (rep (heap s) (NIL s) t None \<and> addr_of (NIL s) t = root s
      \<and> distinct (addrs t) \<and> NIL s \<notin> set (addrs t)
      \<and> list_all (\<lambda>a. a < fresh s) (addrs t) \<and> NIL s < fresh s
      \<and> heap s (NIL s) = createNilNode)"

subsection \<open>The red-black invariants of a tree\<close>

fun col :: "'a shape \<Rightarrow> Color" where
  "col Tip = BLACK"
| "col (Bin l a c k r) = c"

fun bh :: "'a shape \<Rightarrow> nat" where
  "bh Tip = 0"
| "bh (Bin l a c k r) = (if c = BLACK then Suc (bh l) else bh l)"

fun invc :: "'a shape \<Rightarrow> bool" where
  "invc Tip = True"
| "invc (Bin l a c k r) =
     ((c = RED \<longrightarrow> col l = BLACK \<and> col r = BLACK) \<and> invc l \<and> invc r)"

fun invh :: "'a shape \<Rightarrow> bool" where
  "invh Tip = True"
| "invh (Bin l a c k r) = (bh l = bh r \<and> invh l \<and> invh r)"

definition rbt :: "'a shape \<Rightarrow> bool" where
  "rbt t = (col t = BLACK \<and> invc t \<and> invh t)"

text \<open>
  The same invariants checked on the store itself, in the manner of the recursive checker
  that section 8 of the specification describes: the colour and the black height of the
  subtree at a reference, or \<open>None\<close> when an invariant fails below it (or when the fuel
  runs out, or a reference is \<open>null\<close>).
\<close>

fun rb_check :: "nat \<Rightarrow> 'a RedBlackTree \<Rightarrow> ref \<Rightarrow> (Color \<times> nat) option" where
  "rb_check 0 s r = None"
| "rb_check (Suc n) s r =
     (case r of
        None \<Rightarrow> None
      | Some a \<Rightarrow>
          if a = NIL s then (if color (heap s a) = BLACK then Some (BLACK, 0) else None)
          else
            (case rb_check n s (left (heap s a)) of
               None \<Rightarrow> None
             | Some (cl, hl) \<Rightarrow>
                 (case rb_check n s (right (heap s a)) of
                    None \<Rightarrow> None
                  | Some (cr, hr) \<Rightarrow>
                      if hl = hr \<and> (color (heap s a) = RED \<longrightarrow> cl = BLACK \<and> cr = BLACK)
                      then Some (color (heap s a),
                                 if color (heap s a) = BLACK then Suc hl else hl)
                      else None)))"

fun height :: "'a shape \<Rightarrow> nat" where
  "height Tip = 0"
| "height (Bin l a c k r) = max (height l) (height r) + 1"

fun preorder :: "'a shape \<Rightarrow> 'a list" where
  "preorder Tip = []"
| "preorder (Bin l a c k r) = k # preorder l @ preorder r"

fun postorder :: "'a shape \<Rightarrow> 'a list" where
  "postorder Tip = []"
| "postorder (Bin l a c k r) = postorder l @ postorder r @ [k]"

subsection \<open>Positions inside a tree\<close>

text \<open>
  The fix-up walks from a node towards the root.  A position is the list of the nodes
  above it, nearest first, each with its other subtree: \<open>LeftOf a c k r\<close> when the
  position is the left child of \<open>a\<close>, \<open>RightOf l a c k\<close> when it is the right child.
  \<open>plug fs t\<close> is the whole tree with \<open>t\<close> at the position \<open>fs\<close>; \<open>crep\<close> is \<open>rep\<close> for
  the part of the store above the position, and \<open>cinv\<close> the red-black invariants of
  that part, for a subtree of black height \<open>n\<close> at the position.
\<close>

datatype 'a frame = LeftOf nat Color 'a "'a shape" | RightOf "'a shape" nat Color 'a

fun fill :: "'a frame \<Rightarrow> 'a shape \<Rightarrow> 'a shape" where
  "fill (LeftOf a c k r) t = Bin t a c k r"
| "fill (RightOf l a c k) t = Bin l a c k t"

fun plug :: "'a frame list \<Rightarrow> 'a shape \<Rightarrow> 'a shape" where
  "plug [] t = t"
| "plug (f # fs) t = plug fs (fill f t)"

fun faddr :: "'a frame \<Rightarrow> nat" where
  "faddr (LeftOf a c k r) = a"
| "faddr (RightOf l a c k) = a"

fun fcol :: "'a frame \<Rightarrow> Color" where
  "fcol (LeftOf a c k r) = c"
| "fcol (RightOf l a c k) = c"

fun fkey :: "'a frame \<Rightarrow> 'a" where
  "fkey (LeftOf a c k r) = k"
| "fkey (RightOf l a c k) = k"

fun fsib :: "'a frame \<Rightarrow> 'a shape" where
  "fsib (LeftOf a c k r) = r"
| "fsib (RightOf l a c k) = l"

fun cparent :: "'a frame list \<Rightarrow> ref" where
  "cparent [] = None"
| "cparent (f # fs) = Some (faddr f)"

fun ccol :: "'a frame list \<Rightarrow> Color" where
  "ccol [] = BLACK"
| "ccol (f # fs) = fcol f"

fun abefore :: "'a frame list \<Rightarrow> nat list" where
  "abefore [] = []"
| "abefore (LeftOf a c k r # fs) = abefore fs"
| "abefore (RightOf l a c k # fs) = abefore fs @ addrs l @ [a]"

fun aafter :: "'a frame list \<Rightarrow> nat list" where
  "aafter [] = []"
| "aafter (LeftOf a c k r # fs) = a # addrs r @ aafter fs"
| "aafter (RightOf l a c k # fs) = aafter fs"

fun kbefore :: "'a frame list \<Rightarrow> 'a list" where
  "kbefore [] = []"
| "kbefore (LeftOf a c k r # fs) = kbefore fs"
| "kbefore (RightOf l a c k # fs) = kbefore fs @ keys l @ [k]"

fun kafter :: "'a frame list \<Rightarrow> 'a list" where
  "kafter [] = []"
| "kafter (LeftOf a c k r # fs) = k # keys r @ kafter fs"
| "kafter (RightOf l a c k # fs) = kafter fs"

fun crep :: "(nat \<Rightarrow> 'a RBNode) \<Rightarrow> nat \<Rightarrow> 'a frame list \<Rightarrow> nat \<Rightarrow> nat \<Rightarrow> bool" where
  "crep h nil [] p r = (r = p)"
| "crep h nil (LeftOf a c k t # fs) p r =
     (key (h a) = Some k \<and> color (h a) = c \<and> left (h a) = Some p
      \<and> right (h a) = Some (addr_of nil t) \<and> parent (h a) = cparent fs
      \<and> rep h nil t (Some a) \<and> crep h nil fs a r)"
| "crep h nil (RightOf t a c k # fs) p r =
     (key (h a) = Some k \<and> color (h a) = c \<and> left (h a) = Some (addr_of nil t)
      \<and> right (h a) = Some p \<and> parent (h a) = cparent fs
      \<and> rep h nil t (Some a) \<and> crep h nil fs a r)"

fun cinv :: "'a frame list \<Rightarrow> nat \<Rightarrow> bool" where
  "cinv [] n = True"
| "cinv (f # fs) n =
     (invc (fsib f) \<and> invh (fsib f) \<and> bh (fsib f) = n
      \<and> (fcol f = RED \<longrightarrow> col (fsib f) = BLACK)
      \<and> (ccol fs = RED \<longrightarrow> fcol f = BLACK)
      \<and> cinv fs (if fcol f = BLACK then Suc n else n))"

fun descend :: "'a::linorder \<Rightarrow> 'a frame list \<Rightarrow> 'a shape \<Rightarrow> 'a frame list" where
  "descend x fs Tip = fs"
| "descend x fs (Bin l a c k r) =
     (if x < k then descend x (LeftOf a c k r # fs) l
      else descend x (RightOf l a c k # fs) r)"

fun invc2 :: "'a shape \<Rightarrow> bool" where
  "invc2 Tip = True"
| "invc2 (Bin l a c k r) = (invc l \<and> invc r)"

fun fpaint :: "Color \<Rightarrow> 'a frame \<Rightarrow> 'a frame" where
  "fpaint c' (LeftOf a c k r) = LeftOf a c' k r"
| "fpaint c' (RightOf l a c k) = RightOf l a c' k"

fun dir_ok :: "'a::linorder \<Rightarrow> 'a frame \<Rightarrow> bool" where
  "dir_ok x (LeftOf a c k r) = (x < k)"
| "dir_ok x (RightOf l a c k) = (\<not> x < k)"

definition ins_keys :: "'a::linorder \<Rightarrow> 'a shape \<Rightarrow> 'a list" where
  "ins_keys x t = kbefore (descend x [] t) @ x # kafter (descend x [] t)"

definition stored :: "'a RedBlackTree \<Rightarrow> 'a shape \<Rightarrow> bool" where
  "stored s t =
     (t \<noteq> Tip \<and> rep (heap s) (NIL s) t (parent (heap s (addr_of (NIL s) t)))
      \<and> NIL s \<notin> set (addrs t))"

definition children :: "'a shape \<Rightarrow> 'a shape list" where
  "children t = (case t of Tip \<Rightarrow> [] | Bin l a c k r \<Rightarrow>
     (if l = Tip then [] else [l]) @ (if r = Tip then [] else [r]))"

text \<open>
  Sequences of calls.  \<open>insert\<close> and \<open>clear\<close> are the public methods that assign to
  the tree object or to a node; a call that raises ends the run with its error.
  \<open>inserts ks\<close> is the run of \<open>insert\<close> calls on a freshly constructed tree.
\<close>

datatype 'a call = Insert 'a | Clear

fun run_calls :: "'a::linorder RedBlackTree \<Rightarrow> 'a call list \<Rightarrow> (error + 'a RedBlackTree) option" where
  "run_calls s [] = Some (Inr s)"
| "run_calls s (Insert k # cs) =
     (case insertRB s k of
        None \<Rightarrow> None
      | Some (Inl e) \<Rightarrow> Some (Inl e)
      | Some (Inr s') \<Rightarrow> run_calls s' cs)"
| "run_calls s (Clear # cs) = run_calls (clear s) cs"

definition inserts :: "'a::linorder list \<Rightarrow> (error + 'a RedBlackTree) option" where
  "inserts ks = run_calls new_tree (map Insert ks)"

text \<open>
  The first half of \<open>insert\<close> on its own (lines 73 to 97): the store in which the new node
  is linked under its parent, and the address of the new node.
\<close>

definition insert_attach ::
  "'a::linorder RedBlackTree \<Rightarrow> 'a \<Rightarrow> (error + ('a RedBlackTree \<times> nat)) option" where
  "insert_attach s k =
     (let (n, s0) = createNode s k in
      case insert_descend s0 (key (heap s0 n)) None (Some (root s0)) of
        None \<Rightarrow> None
      | Some (Inl e) \<Rightarrow> Some (Inl e)
      | Some (Inr y) \<Rightarrow>
          let s1 = set_parent s0 n y;
              s2 = (case y of
                      None \<Rightarrow> s1\<lparr>root := n\<rparr>
                    | Some ya \<Rightarrow>
                        if key_lt (key (heap s1 n)) (key (heap s1 ya))
                        then set_left s1 ya (Some n)
                        else set_right s1 ya (Some n))
          in Some (Inr (s2, n)))"

text \<open>
  The rotation of Case 2 as section 4.1 of the specification words it: rotate \<open>k.parent\<close>,
  to the right if the parent is the grandparent's left child and \<open>k\<close> is the parent's
  right child, mirrored for the other side.  It is meant for an inner grandchild \<open>k\<close>
  only.
\<close>

definition case2_rotation_spec :: "'a RedBlackTree \<Rightarrow> nat \<Rightarrow> error + 'a RedBlackTree" where
  "case2_rotation_spec s k =
     (case parent (heap s k) of
        None \<Rightarrow> Inl TypeError
      | Some p \<Rightarrow>
          (case parent (heap s p) of
             None \<Rightarrow> Inl TypeError
           | Some g \<Rightarrow>
               if Some p = left (heap s g) \<and> Some k = right (heap s p) then rightRotate s p
               else leftRotate s p))"

text \<open>
  Two small stores.  \<open>inner_left\<close> is the store in which \<open>insert(2)\<close> calls \<open>fixInsert\<close>
  after \<open>insert(3)\<close> and \<open>insert(1)\<close>: the root 3 at address 1, its red left child 1 at
  address 2, and the new red node 2 at address 3, the right child of 1.  \<open>inner_right\<close> is
  its mirror image, for the keys 1, 3, 2.
\<close>

definition inner_left :: "nat RedBlackTree" where
  "inner_left =
     \<lparr>heap = (\<lambda>_. createNilNode)
        (1 := \<lparr>key = Some 3, color = BLACK, left = Some 2, right = Some 0, parent = None\<rparr>,
         2 := \<lparr>key = Some 1, color = RED, left = Some 0, right = Some 3, parent = Some 1\<rparr>,
         3 := \<lparr>key = Some 2, color = RED, left = Some 0, right = Some 0, parent = Some 2\<rparr>),
      NIL = 0, root = 1, fresh = 4\<rparr>"

definition inner_right :: "nat RedBlackTree" where
  "inner_right =
     \<lparr>heap = (\<lambda>_. createNilNode)
        (1 := \<lparr>key = Some 1, color = BLACK, left = Some 0, right = Some 2, parent = None\<rparr>,
         2 := \<lparr>key = Some 3, color = RED, left = Some 3, right = Some 0, parent = Some 1\<rparr>,
         3 := \<lparr>key = Some 2, color = RED, left = Some 0, right = Some 0, parent = Some 2\<rparr>),
      NIL = 0, root = 1, fresh = 4\<rparr>"

section \<open>Lemmas\<close>

subsection \<open>Trees, positions and stores\<close>

lemma addrs_plug: "addrs (plug fs t) = abefore fs @ addrs t @ aafter fs"
  by (induction fs arbitrary: t rule: abefore.induct) auto

lemma keys_plug: "keys (plug fs t) = kbefore fs @ keys t @ kafter fs"
  by (induction fs arbitrary: t rule: kbefore.induct) auto

lemma top_fill [simp]: "addr_of nil (fill f t) = faddr f"
  by (cases f) auto

lemma top_eq_nil: "nil \<notin> set (addrs t) \<Longrightarrow> (addr_of nil t = nil) = (t = Tip)"
  by (cases t) auto

lemma top_in_addrs: "t \<noteq> Tip \<Longrightarrow> addr_of nil t \<in> set (addrs t)"
  by (cases t) auto

lemma top_cases: "addr_of nil t = nil \<or> addr_of nil t \<in> set (addrs t)"
  by (cases t) auto

lemma rep_cong: "(\<And>a. a \<in> set (addrs t) \<Longrightarrow> h' a = h a) \<Longrightarrow> rep h' nil t q = rep h nil t q"
  by (induction t arbitrary: q) auto

lemma crep_cong:
  "(\<And>a. a \<in> set (abefore fs @ aafter fs) \<Longrightarrow> h' a = h a) \<Longrightarrow> crep h' nil fs p r = crep h nil fs p r"
proof (induction fs arbitrary: p rule: abefore.induct)
  case 1
  then show ?case by simp
next
  case (2 a c k t fs)
  have "rep h' nil t (Some a) = rep h nil t (Some a)"
    by (rule rep_cong) (rule "2.prems", simp)
  moreover have "crep h' nil fs a r = crep h nil fs a r"
    by (rule "2.IH") (rule "2.prems", auto)
  moreover have "h' a = h a" by (rule "2.prems") simp
  ultimately show ?case by simp
next
  case (3 t a c k fs)
  have "rep h' nil t (Some a) = rep h nil t (Some a)"
    by (rule rep_cong) (rule "3.prems", simp)
  moreover have "crep h' nil fs a r = crep h nil fs a r"
    by (rule "3.IH") (rule "3.prems", auto)
  moreover have "h' a = h a" by (rule "3.prems") simp
  ultimately show ?case by simp
qed

lemma rep_plug:
  "(rep h nil (plug fs t) None \<and> addr_of nil (plug fs t) = r)
   = (rep h nil t (cparent fs) \<and> crep h nil fs (addr_of nil t) r)"
proof (induction fs arbitrary: t)
  case Nil
  then show ?case by auto
next
  case (Cons f fs)
  show ?case
    by (cases f) (auto simp: Cons.IH)
qed


lemma inv_plug:
  "(invc (plug fs t) \<and> invh (plug fs t))
   = (invc t \<and> invh t \<and> cinv fs (bh t) \<and> (ccol fs = RED \<longrightarrow> col t = BLACK))"
proof (induction fs arbitrary: t)
  case Nil
  then show ?case by simp
next
  case (Cons f fs)
  show ?case
    by (cases f) (auto simp: Cons.IH)
qed

lemma col_plug: "col (plug fs t) = (if fs = [] then col t else fcol (last fs))"
proof (induction fs arbitrary: t)
  case Nil
  then show ?case by simp
next
  case (Cons f fs)
  show ?case
    by (cases f) (auto simp: Cons.IH)
qed

lemma plug_descend: "plug (descend x fs t) Tip = plug fs t"
  by (induction t arbitrary: fs) auto

subsection \<open>Field assignments, field by field\<close>

lemma set_color_fields [simp]:
  "NIL (set_color s a c) = NIL s" "root (set_color s a c) = root s"
  "fresh (set_color s a c) = fresh s"
  "key (heap (set_color s a c) z) = key (heap s z)"
  "left (heap (set_color s a c) z) = left (heap s z)"
  "right (heap (set_color s a c) z) = right (heap s z)"
  "parent (heap (set_color s a c) z) = parent (heap s z)"
  "color (heap (set_color s a c) a) = c"
  by (simp_all add: set_color_def)

lemma set_left_fields [simp]:
  "NIL (set_left s a r) = NIL s" "root (set_left s a r) = root s"
  "fresh (set_left s a r) = fresh s"
  "key (heap (set_left s a r) z) = key (heap s z)"
  "color (heap (set_left s a r) z) = color (heap s z)"
  "right (heap (set_left s a r) z) = right (heap s z)"
  "parent (heap (set_left s a r) z) = parent (heap s z)"
  "left (heap (set_left s a r) a) = r"
  by (simp_all add: set_left_def)

lemma set_right_fields [simp]:
  "NIL (set_right s a r) = NIL s" "root (set_right s a r) = root s"
  "fresh (set_right s a r) = fresh s"
  "key (heap (set_right s a r) z) = key (heap s z)"
  "color (heap (set_right s a r) z) = color (heap s z)"
  "left (heap (set_right s a r) z) = left (heap s z)"
  "parent (heap (set_right s a r) z) = parent (heap s z)"
  "right (heap (set_right s a r) a) = r"
  by (simp_all add: set_right_def)

lemma set_parent_fields [simp]:
  "NIL (set_parent s a r) = NIL s" "root (set_parent s a r) = root s"
  "fresh (set_parent s a r) = fresh s"
  "key (heap (set_parent s a r) z) = key (heap s z)"
  "color (heap (set_parent s a r) z) = color (heap s z)"
  "left (heap (set_parent s a r) z) = left (heap s z)"
  "right (heap (set_parent s a r) z) = right (heap s z)"
  "parent (heap (set_parent s a r) a) = r"
  by (simp_all add: set_parent_def)

lemma set_other [simp]:
  "z \<noteq> a \<Longrightarrow> heap (set_color s a c) z = heap s z"
  "z \<noteq> a \<Longrightarrow> heap (set_left s a r) z = heap s z"
  "z \<noteq> a \<Longrightarrow> heap (set_right s a r) z = heap s z"
  "z \<noteq> a \<Longrightarrow> heap (set_parent s a r) z = heap s z"
  by (simp_all add: set_color_def set_left_def set_right_def set_parent_def)

lemma represents_plug:
  "represents s (plug fs t) =
     (rep (heap s) (NIL s) t (cparent fs) \<and> crep (heap s) (NIL s) fs (addr_of (NIL s) t) (root s)
      \<and> distinct (abefore fs @ addrs t @ aafter fs)
      \<and> NIL s \<notin> set (abefore fs @ addrs t @ aafter fs)
      \<and> list_all (\<lambda>a. a < fresh s) (abefore fs @ addrs t @ aafter fs)
      \<and> NIL s < fresh s \<and> heap s (NIL s) = createNilNode)"
  unfolding represents_def addrs_plug using rep_plug [of "heap s" "NIL s" fs t "root s"]
  by blast

lemma crep_rechild_L:
  assumes "crep h nil (LeftOf a c k t # fs) p r"
    and "key (h' a) = key (h a)" "color (h' a) = color (h a)" "right (h' a) = right (h a)"
      "parent (h' a) = parent (h a)" "left (h' a) = Some p'"
    and "\<And>z. z \<in> set (addrs t) \<union> set (abefore fs @ aafter fs) \<Longrightarrow> h' z = h z"
  shows "crep h' nil (LeftOf a c k t # fs) p' r"
proof -
  have "rep h' nil t (Some a) = rep h nil t (Some a)"
    by (rule rep_cong) (rule assms(7), simp)
  moreover have "crep h' nil fs a r = crep h nil fs a r"
    by (rule crep_cong) (rule assms(7), simp)
  ultimately show ?thesis using assms(1-6) by simp
qed

lemma crep_rechild_R:
  assumes "crep h nil (RightOf t a c k # fs) p r"
    and "key (h' a) = key (h a)" "color (h' a) = color (h a)" "left (h' a) = left (h a)"
      "parent (h' a) = parent (h a)" "right (h' a) = Some p'"
    and "\<And>z. z \<in> set (addrs t) \<union> set (abefore fs @ aafter fs) \<Longrightarrow> h' z = h z"
  shows "crep h' nil (RightOf t a c k # fs) p' r"
proof -
  have "rep h' nil t (Some a) = rep h nil t (Some a)"
    by (rule rep_cong) (rule assms(7), simp)
  moreover have "crep h' nil fs a r = crep h nil fs a r"
    by (rule crep_cong) (rule assms(7), simp)
  ultimately show ?thesis using assms(1-6) by simp
qed

lemma rep_reparent_any:
  assumes "rep h nil t q"
    and "distinct (addrs t)"
    and "\<And>z. z \<in> set (addrs t) \<Longrightarrow> z \<noteq> addr_of nil t \<Longrightarrow> h' z = h z"
    and "t \<noteq> Tip \<Longrightarrow> key (h' (addr_of nil t)) = key (h (addr_of nil t))
          \<and> color (h' (addr_of nil t)) = color (h (addr_of nil t))
          \<and> left (h' (addr_of nil t)) = left (h (addr_of nil t))
          \<and> right (h' (addr_of nil t)) = right (h (addr_of nil t))
          \<and> parent (h' (addr_of nil t)) = q'"
  shows "rep h' nil t q'"
proof (cases t)
  case Tip
  then show ?thesis by simp
next
  case (Bin l a c k r)
  have "rep h' nil l (Some a) = rep h nil l (Some a)"
    by (rule rep_cong) (rule assms(3), use Bin assms(2) in auto)
  moreover have "rep h' nil r (Some a) = rep h nil r (Some a)"
    by (rule rep_cong) (rule assms(3), use Bin assms(2) in auto)
  ultimately show ?thesis using assms(1,4) Bin by simp
qed

lemma addr_of_neq:
  "x \<notin> set (addrs t) \<Longrightarrow> x \<noteq> nil \<Longrightarrow> addr_of nil t \<noteq> x"
  by (cases t) auto

subsection \<open>Rotations on represented trees\<close>

lemma leftRotate_represents:
  assumes R: "represents s (plug fs (Bin a x cx kx (Bin b y cy ky d)))"
  shows "\<exists>s'. leftRotate s x = Inr s'
            \<and> represents s' (plug fs (Bin (Bin a x cx kx b) y cy ky d))
            \<and> NIL s' = NIL s \<and> fresh s' = fresh s
            \<and> (\<forall>z. key (heap s' z) = key (heap s z) \<and> color (heap s' z) = color (heap s z))"
proof -
  let ?h = "heap s" and ?n = "NIL s"
  let ?bt = "addr_of ?n b"
  from R have hx: "key (?h x) = Some kx" "color (?h x) = cx" "left (?h x) = Some (addr_of ?n a)"
      "right (?h x) = Some y" "parent (?h x) = cparent fs"
    and hy: "key (?h y) = Some ky" "color (?h y) = cy" "left (?h y) = Some ?bt"
      "right (?h y) = Some (addr_of ?n d)" "parent (?h y) = Some x"
    and ra: "rep ?h ?n a (Some x)" and rb: "rep ?h ?n b (Some y)" and rd: "rep ?h ?n d (Some y)"
    and cr: "crep ?h ?n fs x (root s)"
    and di: "distinct (abefore fs @ (addrs a @ x # addrs b @ y # addrs d) @ aafter fs)"
    and nn: "?n \<notin> set (abefore fs @ (addrs a @ x # addrs b @ y # addrs d) @ aafter fs)"
    and fr: "list_all (\<lambda>a. a < fresh s) (abefore fs @ (addrs a @ x # addrs b @ y # addrs d) @ aafter fs)"
    and nf: "?n < fresh s" and hn: "?h ?n = createNilNode"
    by (simp_all add: represents_plug)
  have xy: "x \<noteq> y" "x \<noteq> ?n" "y \<noteq> ?n" using di nn by auto
  have bn: "(?bt = ?n) = (b = Tip)"
    by (rule top_eq_nil) (use nn in simp)
  have bx: "?bt \<noteq> x" "?bt \<noteq> y"
    using di xy by (cases b; auto)+
  have cp: "cparent fs \<noteq> Some x" "cparent fs \<noteq> Some y" "cparent fs \<noteq> Some ?n"
    using di nn by (cases fs rule: abefore.cases; auto)+
  have cpb: "cparent fs \<noteq> Some ?bt"
    using di nn by (cases fs rule: abefore.cases; cases b; auto)
  define s1 where "s1 = set_right s x (Some ?bt)"
  define s2 where "s2 = (if b = Tip then s1 else set_parent s1 ?bt (Some x))"
  define s3 where "s3 = set_parent s2 y (cparent fs)"
  define s4 where "s4 = (case fs of [] \<Rightarrow> s3\<lparr>root := y\<rparr>
                         | LeftOf p c k t # fs' \<Rightarrow> set_left s3 p (Some y)
                         | RightOf t p c k # fs' \<Rightarrow> set_right s3 p (Some y))"
  define s6 where "s6 = set_parent (set_left s4 y (Some x)) x (Some y)"
  have f2: "NIL s2 = ?n" "fresh s2 = fresh s" "root s2 = root s"
    "\<And>z. key (heap s2 z) = key (?h z)" "\<And>z. color (heap s2 z) = color (?h z)"
    "\<And>z. left (heap s2 z) = left (?h z)"
    "\<And>z. z \<noteq> x \<Longrightarrow> right (heap s2 z) = right (?h z)"
    "right (heap s2 x) = Some ?bt"
    "\<And>z. z \<noteq> ?bt \<Longrightarrow> parent (heap s2 z) = parent (?h z)"
    "b \<noteq> Tip \<Longrightarrow> parent (heap s2 ?bt) = Some x"
    "\<And>z. z \<noteq> x \<Longrightarrow> z \<noteq> ?bt \<Longrightarrow> heap s2 z = ?h z"
    by (simp_all add: s2_def s1_def)
  have f3: "NIL s3 = ?n" "fresh s3 = fresh s" "root s3 = root s"
    "\<And>z. key (heap s3 z) = key (?h z)" "\<And>z. color (heap s3 z) = color (?h z)"
    "\<And>z. left (heap s3 z) = left (?h z)"
    "\<And>z. z \<noteq> x \<Longrightarrow> right (heap s3 z) = right (?h z)"
    "right (heap s3 x) = Some ?bt"
    "\<And>z. z \<noteq> ?bt \<Longrightarrow> z \<noteq> y \<Longrightarrow> parent (heap s3 z) = parent (?h z)"
    "b \<noteq> Tip \<Longrightarrow> parent (heap s3 ?bt) = Some x"
    "parent (heap s3 y) = cparent fs"
    "\<And>z. z \<noteq> x \<Longrightarrow> z \<noteq> ?bt \<Longrightarrow> z \<noteq> y \<Longrightarrow> heap s3 z = ?h z"
    using bx by (simp_all add: s3_def f2)
  have f4: "NIL s4 = ?n" "fresh s4 = fresh s" "root s4 = (if fs = [] then y else root s)"
    "\<And>z. key (heap s4 z) = key (heap s3 z)" "\<And>z. color (heap s4 z) = color (heap s3 z)"
    "\<And>z. parent (heap s4 z) = parent (heap s3 z)"
    "\<And>z. cparent fs \<noteq> Some z \<Longrightarrow> heap s4 z = heap s3 z"
    by (cases fs rule: abefore.cases; simp add: s4_def f3)+
  have f6: "NIL s6 = ?n" "fresh s6 = fresh s" "root s6 = (if fs = [] then y else root s)"
    "\<And>z. key (heap s6 z) = key (?h z)" "\<And>z. color (heap s6 z) = color (?h z)"
    "left (heap s6 y) = Some x" "right (heap s6 y) = Some (addr_of ?n d)"
    "parent (heap s6 y) = cparent fs" "parent (heap s6 x) = Some y"
    "right (heap s6 x) = Some ?bt" "left (heap s6 x) = Some (addr_of ?n a)"
    using xy cp hx hy by (simp_all add: s6_def f4 f3)
  have o6: "heap s6 z = ?h z"
    if "z \<noteq> x" "z \<noteq> y" "z \<noteq> ?bt" "cparent fs \<noteq> Some z" for z
    using that by (simp add: s6_def f4 f3)
  have b6: "key (heap s6 ?bt) = key (?h ?bt) \<and> color (heap s6 ?bt) = color (?h ?bt)
      \<and> left (heap s6 ?bt) = left (?h ?bt) \<and> right (heap s6 ?bt) = right (?h ?bt)
      \<and> parent (heap s6 ?bt) = Some x" if "b \<noteq> Tip"
    using that bx cpb by (simp add: s6_def f4 f3)
  have p3: "parent (heap s3 x) = cparent fs"
    using xy bx hx by (simp add: f3)
  have e4: "(case parent (heap s3 x) of
               None \<Rightarrow> s3\<lparr>root := y\<rparr>
             | Some xp \<Rightarrow> if Some x = left (heap s3 xp) then set_left s3 xp (Some y)
                          else set_right s3 xp (Some y)) = s4"
  proof (cases fs rule: abefore.cases)
    case 1
    then show ?thesis using p3 by (simp add: s4_def)
  next
    case (2 p c k t fs')
    have "left (?h p) = Some x" using cr 2 by simp
    then show ?thesis using p3 2 by (simp add: s4_def f3)
  next
    case (3 t p c k fs')
    have "x \<notin> set (addrs t)" using di 3 by auto
    then have "addr_of ?n t \<noteq> x" using xy by (intro addr_of_neq) auto
    moreover have "left (?h p) = Some (addr_of ?n t)" using cr 3 by simp
    ultimately show ?thesis using p3 3 by (simp add: s4_def f3)
  qed
  have run: "leftRotate s x = Inr s6"
  proof -
    have 1: "set_right s x (left (heap s y)) = s1" using hy by (simp add: s1_def)
    have 2: "left (heap s1 y) = Some ?bt" "NIL s1 = ?n"
      using hy by (simp_all add: s1_def)
    have 4: "(if left (heap s1 y) \<noteq> Some (NIL s1)
                 then (case left (heap s1 y) of
                         None \<Rightarrow> Inl TypeError
                       | Some yl \<Rightarrow> Inr (set_parent s1 yl (Some x)))
                 else Inr s1) = Inr s2"
      using bn by (simp add: 2 s2_def)
    have 5: "parent (heap s2 x) = cparent fs" using bx hx by (simp add: f2)
    show ?thesis
      unfolding leftRotate_def using hx(4)
      by (simp add: 1 4 5 e4 s3_def [symmetric] s6_def Let_def)
  qed
  let ?h' = "heap s6"
  have sub: "?h' z = ?h z" if "z \<in> set (addrs a) \<union> set (addrs d) \<union> set (abefore fs @ aafter fs)"
      "cparent fs \<noteq> Some z" for z
  proof -
    have "z \<noteq> ?bt" using di that nn top_cases [of ?n b] by auto
    then show ?thesis using di that by (intro o6) auto
  qed
  have ra': "rep ?h' ?n a (Some x)"
  proof -
    have "rep ?h' ?n a (Some x) = rep ?h ?n a (Some x)"
    proof (rule rep_cong)
      fix z assume z: "z \<in> set (addrs a)"
      have "cparent fs \<noteq> Some z" using di z by (cases fs rule: abefore.cases; auto)
      then show "?h' z = ?h z" using z by (intro sub) auto
    qed
    then show ?thesis using ra by simp
  qed
  have rd': "rep ?h' ?n d (Some y)"
  proof -
    have "rep ?h' ?n d (Some y) = rep ?h ?n d (Some y)"
    proof (rule rep_cong)
      fix z assume z: "z \<in> set (addrs d)"
      have "cparent fs \<noteq> Some z" using di z by (cases fs rule: abefore.cases; auto)
      then show "?h' z = ?h z" using z by (intro sub) auto
    qed
    then show ?thesis using rd by simp
  qed
  have rb': "rep ?h' ?n b (Some x)"
  proof (rule rep_reparent_any [OF rb])
    show "distinct (addrs b)" using di by simp
  next
    fix z assume z: "z \<in> set (addrs b)" "z \<noteq> ?bt"
    have "cparent fs \<noteq> Some z" using di z by (cases fs rule: abefore.cases; auto)
    then show "?h' z = ?h z" using di z by (intro o6) auto
  next
    assume "b \<noteq> Tip" then show "key (?h' ?bt) = key (?h ?bt) \<and> color (?h' ?bt) = color (?h ?bt)
      \<and> left (?h' ?bt) = left (?h ?bt) \<and> right (?h' ?bt) = right (?h ?bt)
      \<and> parent (?h' ?bt) = Some x"
      by (rule b6)
  qed
  have cr': "crep ?h' ?n fs y (root s6)"
  proof (cases fs rule: abefore.cases)
    case 1
    then show ?thesis by (simp add: f6)
  next
    case (2 p c k t fs')
    have px: "p \<noteq> x" "p \<noteq> y" "p \<noteq> ?bt"
      using di nn 2 by (cases b; auto)+
    have "crep ?h' ?n (LeftOf p c k t # fs') y (root s)"
    proof (rule crep_rechild_L)
      show "crep ?h ?n (LeftOf p c k t # fs') x (root s)" using cr 2 by simp
      show "key (?h' p) = key (?h p)" "color (?h' p) = color (?h p)" by (simp_all add: f6)
      show "right (?h' p) = right (?h p)" "parent (?h' p) = parent (?h p)" "left (?h' p) = Some y"
        using px 2 by (simp_all add: s6_def s4_def f3)
    next
      fix z assume z: "z \<in> set (addrs t) \<union> set (abefore fs' @ aafter fs')"
      have "cparent fs \<noteq> Some z" using di z 2 by auto
      then show "?h' z = ?h z" using z 2 by (intro sub) auto
    qed
    then show ?thesis using 2 by (simp add: f6)
  next
    case (3 t p c k fs')
    have px: "p \<noteq> x" "p \<noteq> y" "p \<noteq> ?bt"
      using di nn 3 by (cases b; auto)+
    have "crep ?h' ?n (RightOf t p c k # fs') y (root s)"
    proof (rule crep_rechild_R)
      show "crep ?h ?n (RightOf t p c k # fs') x (root s)" using cr 3 by simp
      show "key (?h' p) = key (?h p)" "color (?h' p) = color (?h p)" by (simp_all add: f6)
      show "left (?h' p) = left (?h p)" "parent (?h' p) = parent (?h p)" "right (?h' p) = Some y"
        using px 3 by (simp_all add: s6_def s4_def f3)
    next
      fix z assume z: "z \<in> set (addrs t) \<union> set (abefore fs' @ aafter fs')"
      have "cparent fs \<noteq> Some z" using di z 3 by auto
      then show "?h' z = ?h z" using z 3 by (intro sub) auto
    qed
    then show ?thesis using 3 by (simp add: f6)
  qed
  have hn': "?h' ?n = createNilNode"
  proof -
    have "?h' ?n = ?h ?n" using xy cp bn
      by (cases "b = Tip") (simp_all add: s6_def f4 s3_def s2_def s1_def)
    then show ?thesis using hn by simp
  qed
  have "represents s6 (plug fs (Bin (Bin a x cx kx b) y cy ky d))"
    unfolding represents_plug f6
    using hx hy ra' rb' rd' cr' di nn fr nf hn' by (simp add: f6)
  then show ?thesis using run f6 by blast
qed

lemma rightRotate_represents:
  assumes R: "represents s (plug fs (Bin (Bin a y cy ky b) x cx kx d))"
  shows "\<exists>s'. rightRotate s x = Inr s'
            \<and> represents s' (plug fs (Bin a y cy ky (Bin b x cx kx d)))
            \<and> NIL s' = NIL s \<and> fresh s' = fresh s
            \<and> (\<forall>z. key (heap s' z) = key (heap s z) \<and> color (heap s' z) = color (heap s z))"
proof -
  let ?h = "heap s" and ?n = "NIL s"
  let ?bt = "addr_of ?n b"
  from R have hx: "key (?h x) = Some kx" "color (?h x) = cx" "right (?h x) = Some (addr_of ?n d)"
      "left (?h x) = Some y" "parent (?h x) = cparent fs"
    and hy: "key (?h y) = Some ky" "color (?h y) = cy" "right (?h y) = Some ?bt"
      "left (?h y) = Some (addr_of ?n a)" "parent (?h y) = Some x"
    and ra: "rep ?h ?n a (Some y)" and rb: "rep ?h ?n b (Some y)" and rd: "rep ?h ?n d (Some x)"
    and cr: "crep ?h ?n fs x (root s)"
    and di: "distinct (abefore fs @ (addrs a @ y # addrs b @ x # addrs d) @ aafter fs)"
    and nn: "?n \<notin> set (abefore fs @ (addrs a @ y # addrs b @ x # addrs d) @ aafter fs)"
    and fr: "list_all (\<lambda>a. a < fresh s) (abefore fs @ (addrs a @ y # addrs b @ x # addrs d) @ aafter fs)"
    and nf: "?n < fresh s" and hn: "?h ?n = createNilNode"
    by (simp_all add: represents_plug)
  have xy: "x \<noteq> y" "x \<noteq> ?n" "y \<noteq> ?n" using di nn by auto
  have bn: "(?bt = ?n) = (b = Tip)"
    by (rule top_eq_nil) (use nn in simp)
  have bx: "?bt \<noteq> x" "?bt \<noteq> y"
    using di xy by (cases b; auto)+
  have cp: "cparent fs \<noteq> Some x" "cparent fs \<noteq> Some y" "cparent fs \<noteq> Some ?n"
    using di nn by (cases fs rule: abefore.cases; auto)+
  have cpb: "cparent fs \<noteq> Some ?bt"
    using di nn by (cases fs rule: abefore.cases; cases b; auto)
  define s1 where "s1 = set_left s x (Some ?bt)"
  define s2 where "s2 = (if b = Tip then s1 else set_parent s1 ?bt (Some x))"
  define s3 where "s3 = set_parent s2 y (cparent fs)"
  define s4 where "s4 = (case fs of [] \<Rightarrow> s3\<lparr>root := y\<rparr>
                         | LeftOf p c k t # fs' \<Rightarrow> set_left s3 p (Some y)
                         | RightOf t p c k # fs' \<Rightarrow> set_right s3 p (Some y))"
  define s6 where "s6 = set_parent (set_right s4 y (Some x)) x (Some y)"
  have f2: "NIL s2 = ?n" "fresh s2 = fresh s" "root s2 = root s"
    "\<And>z. key (heap s2 z) = key (?h z)" "\<And>z. color (heap s2 z) = color (?h z)"
    "\<And>z. right (heap s2 z) = right (?h z)"
    "\<And>z. z \<noteq> x \<Longrightarrow> left (heap s2 z) = left (?h z)"
    "left (heap s2 x) = Some ?bt"
    "\<And>z. z \<noteq> ?bt \<Longrightarrow> parent (heap s2 z) = parent (?h z)"
    "b \<noteq> Tip \<Longrightarrow> parent (heap s2 ?bt) = Some x"
    "\<And>z. z \<noteq> x \<Longrightarrow> z \<noteq> ?bt \<Longrightarrow> heap s2 z = ?h z"
    by (simp_all add: s2_def s1_def)
  have f3: "NIL s3 = ?n" "fresh s3 = fresh s" "root s3 = root s"
    "\<And>z. key (heap s3 z) = key (?h z)" "\<And>z. color (heap s3 z) = color (?h z)"
    "\<And>z. right (heap s3 z) = right (?h z)"
    "\<And>z. z \<noteq> x \<Longrightarrow> left (heap s3 z) = left (?h z)"
    "left (heap s3 x) = Some ?bt"
    "\<And>z. z \<noteq> ?bt \<Longrightarrow> z \<noteq> y \<Longrightarrow> parent (heap s3 z) = parent (?h z)"
    "b \<noteq> Tip \<Longrightarrow> parent (heap s3 ?bt) = Some x"
    "parent (heap s3 y) = cparent fs"
    "\<And>z. z \<noteq> x \<Longrightarrow> z \<noteq> ?bt \<Longrightarrow> z \<noteq> y \<Longrightarrow> heap s3 z = ?h z"
    using bx by (simp_all add: s3_def f2)
  have f4: "NIL s4 = ?n" "fresh s4 = fresh s" "root s4 = (if fs = [] then y else root s)"
    "\<And>z. key (heap s4 z) = key (heap s3 z)" "\<And>z. color (heap s4 z) = color (heap s3 z)"
    "\<And>z. parent (heap s4 z) = parent (heap s3 z)"
    "\<And>z. cparent fs \<noteq> Some z \<Longrightarrow> heap s4 z = heap s3 z"
    by (cases fs rule: abefore.cases; simp add: s4_def f3)+
  have f6: "NIL s6 = ?n" "fresh s6 = fresh s" "root s6 = (if fs = [] then y else root s)"
    "\<And>z. key (heap s6 z) = key (?h z)" "\<And>z. color (heap s6 z) = color (?h z)"
    "right (heap s6 y) = Some x" "left (heap s6 y) = Some (addr_of ?n a)"
    "parent (heap s6 y) = cparent fs" "parent (heap s6 x) = Some y"
    "left (heap s6 x) = Some ?bt" "right (heap s6 x) = Some (addr_of ?n d)"
    using xy cp hx hy by (simp_all add: s6_def f4 f3)
  have o6: "heap s6 z = ?h z"
    if "z \<noteq> x" "z \<noteq> y" "z \<noteq> ?bt" "cparent fs \<noteq> Some z" for z
    using that by (simp add: s6_def f4 f3)
  have b6: "key (heap s6 ?bt) = key (?h ?bt) \<and> color (heap s6 ?bt) = color (?h ?bt)
      \<and> left (heap s6 ?bt) = left (?h ?bt) \<and> right (heap s6 ?bt) = right (?h ?bt)
      \<and> parent (heap s6 ?bt) = Some x" if "b \<noteq> Tip"
    using that bx cpb by (simp add: s6_def f4 f3)
  have p3: "parent (heap s3 x) = cparent fs"
    using xy bx hx by (simp add: f3)
  have e4: "(case parent (heap s3 x) of
               None \<Rightarrow> s3\<lparr>root := y\<rparr>
             | Some xp \<Rightarrow> if Some x = right (heap s3 xp) then set_right s3 xp (Some y)
                          else set_left s3 xp (Some y)) = s4"
  proof (cases fs rule: abefore.cases)
    case 1
    then show ?thesis using p3 by (simp add: s4_def)
  next
    case (2 p c k t fs')
    have "x \<notin> set (addrs t)" using di 2 by auto
    then have "addr_of ?n t \<noteq> x" using xy by (intro addr_of_neq) auto
    moreover have "right (?h p) = Some (addr_of ?n t)" using cr 2 by simp
    ultimately show ?thesis using p3 2 by (simp add: s4_def f3)
  next
    case (3 t p c k fs')
    have "right (?h p) = Some x" using cr 3 by simp
    then show ?thesis using p3 3 by (simp add: s4_def f3)
  qed
  have run: "rightRotate s x = Inr s6"
  proof -
    have 1: "set_left s x (right (heap s y)) = s1" using hy by (simp add: s1_def)
    have 2: "right (heap s1 y) = Some ?bt" "NIL s1 = ?n"
      using hy by (simp_all add: s1_def)
    have 4: "(if right (heap s1 y) \<noteq> Some (NIL s1)
                 then (case right (heap s1 y) of
                         None \<Rightarrow> Inl TypeError
                       | Some yl \<Rightarrow> Inr (set_parent s1 yl (Some x)))
                 else Inr s1) = Inr s2"
      using bn by (simp add: 2 s2_def)
    have 5: "parent (heap s2 x) = cparent fs" using bx hx by (simp add: f2)
    show ?thesis
      unfolding rightRotate_def using hx(4)
      by (simp add: 1 4 5 e4 s3_def [symmetric] s6_def Let_def)
  qed
  let ?h' = "heap s6"
  have sub: "?h' z = ?h z" if "z \<in> set (addrs a) \<union> set (addrs d) \<union> set (abefore fs @ aafter fs)"
      "cparent fs \<noteq> Some z" for z
  proof -
    have "z \<noteq> ?bt" using di that nn top_cases [of ?n b] by auto
    then show ?thesis using di that by (intro o6) auto
  qed
  have ra': "rep ?h' ?n a (Some y)"
  proof -
    have "rep ?h' ?n a (Some y) = rep ?h ?n a (Some y)"
    proof (rule rep_cong)
      fix z assume z: "z \<in> set (addrs a)"
      have "cparent fs \<noteq> Some z" using di z by (cases fs rule: abefore.cases; auto)
      then show "?h' z = ?h z" using z by (intro sub) auto
    qed
    then show ?thesis using ra by simp
  qed
  have rd': "rep ?h' ?n d (Some x)"
  proof -
    have "rep ?h' ?n d (Some x) = rep ?h ?n d (Some x)"
    proof (rule rep_cong)
      fix z assume z: "z \<in> set (addrs d)"
      have "cparent fs \<noteq> Some z" using di z by (cases fs rule: abefore.cases; auto)
      then show "?h' z = ?h z" using z by (intro sub) auto
    qed
    then show ?thesis using rd by simp
  qed
  have rb': "rep ?h' ?n b (Some x)"
  proof (rule rep_reparent_any [OF rb])
    show "distinct (addrs b)" using di by simp
  next
    fix z assume z: "z \<in> set (addrs b)" "z \<noteq> ?bt"
    have "cparent fs \<noteq> Some z" using di z by (cases fs rule: abefore.cases; auto)
    then show "?h' z = ?h z" using di z by (intro o6) auto
  next
    assume "b \<noteq> Tip" then show "key (?h' ?bt) = key (?h ?bt) \<and> color (?h' ?bt) = color (?h ?bt)
      \<and> left (?h' ?bt) = left (?h ?bt) \<and> right (?h' ?bt) = right (?h ?bt)
      \<and> parent (?h' ?bt) = Some x"
      by (rule b6)
  qed
  have cr': "crep ?h' ?n fs y (root s6)"
  proof (cases fs rule: abefore.cases)
    case 1
    then show ?thesis by (simp add: f6)
  next
    case (2 p c k t fs')
    have px: "p \<noteq> x" "p \<noteq> y" "p \<noteq> ?bt"
      using di nn 2 by (cases b; auto)+
    have "crep ?h' ?n (LeftOf p c k t # fs') y (root s)"
    proof (rule crep_rechild_L)
      show "crep ?h ?n (LeftOf p c k t # fs') x (root s)" using cr 2 by simp
      show "key (?h' p) = key (?h p)" "color (?h' p) = color (?h p)" by (simp_all add: f6)
      show "right (?h' p) = right (?h p)" "parent (?h' p) = parent (?h p)" "left (?h' p) = Some y"
        using px 2 by (simp_all add: s6_def s4_def f3)
    next
      fix z assume z: "z \<in> set (addrs t) \<union> set (abefore fs' @ aafter fs')"
      have "cparent fs \<noteq> Some z" using di z 2 by auto
      then show "?h' z = ?h z" using z 2 by (intro sub) auto
    qed
    then show ?thesis using 2 by (simp add: f6)
  next
    case (3 t p c k fs')
    have px: "p \<noteq> x" "p \<noteq> y" "p \<noteq> ?bt"
      using di nn 3 by (cases b; auto)+
    have "crep ?h' ?n (RightOf t p c k # fs') y (root s)"
    proof (rule crep_rechild_R)
      show "crep ?h ?n (RightOf t p c k # fs') x (root s)" using cr 3 by simp
      show "key (?h' p) = key (?h p)" "color (?h' p) = color (?h p)" by (simp_all add: f6)
      show "left (?h' p) = left (?h p)" "parent (?h' p) = parent (?h p)" "right (?h' p) = Some y"
        using px 3 by (simp_all add: s6_def s4_def f3)
    next
      fix z assume z: "z \<in> set (addrs t) \<union> set (abefore fs' @ aafter fs')"
      have "cparent fs \<noteq> Some z" using di z 3 by auto
      then show "?h' z = ?h z" using z 3 by (intro sub) auto
    qed
    then show ?thesis using 3 by (simp add: f6)
  qed
  have hn': "?h' ?n = createNilNode"
  proof -
    have "?h' ?n = ?h ?n" using xy cp bn
      by (cases "b = Tip") (simp_all add: s6_def f4 s3_def s2_def s1_def)
    then show ?thesis using hn by simp
  qed
  have "represents s6 (plug fs (Bin a y cy ky (Bin b x cx kx d)))"
    unfolding represents_plug f6
    using hx hy ra' rb' rd' cr' di nn fr nf hn' by (simp add: f6)
  then show ?thesis using run f6 by blast
qed

subsection \<open>The cases of the fix-up\<close>

lemma represents_cell:
  assumes "represents s T" and "T = plug fs (Bin l a c k r)"
  shows "key (heap s a) = Some k" "color (heap s a) = c"
    "left (heap s a) = Some (addr_of (NIL s) l)" "right (heap s a) = Some (addr_of (NIL s) r)"
    "parent (heap s a) = cparent fs"
    "a \<noteq> NIL s"
  using assms by (simp_all add: represents_plug)

lemma set_color_represents:
  assumes R: "represents s T" and T: "T = plug fs (Bin l a c k r)"
  shows "represents (set_color s a c') (plug fs (Bin l a c' k r))"
proof -
  let ?h = "heap s" and ?n = "NIL s" and ?h' = "heap (set_color s a c')"
  from R T have ha: "key (?h a) = Some k" "left (?h a) = Some (addr_of ?n l)"
      "right (?h a) = Some (addr_of ?n r)" "parent (?h a) = cparent fs"
    and rl: "rep ?h ?n l (Some a)" and rr: "rep ?h ?n r (Some a)"
    and cr: "crep ?h ?n fs a (root s)"
    and di: "distinct (abefore fs @ (addrs l @ a # addrs r) @ aafter fs)"
    and nn: "?n \<notin> set (abefore fs @ (addrs l @ a # addrs r) @ aafter fs)"
    and fr: "list_all (\<lambda>a. a < fresh s) (abefore fs @ (addrs l @ a # addrs r) @ aafter fs)"
    and nf: "?n < fresh s" and hn: "?h ?n = createNilNode"
    by (simp_all add: represents_plug)
  have ne: "z \<noteq> a"
    if "z \<in> set (abefore fs) \<union> set (addrs l) \<union> set (addrs r) \<union> set (aafter fs)" for z
    using di that by auto
  have rl': "rep ?h' ?n l (Some a)"
  proof -
    have "rep ?h' ?n l (Some a) = rep ?h ?n l (Some a)"
      by (rule rep_cong) (simp add: ne)
    then show ?thesis using rl by simp
  qed
  have rr': "rep ?h' ?n r (Some a)"
  proof -
    have "rep ?h' ?n r (Some a) = rep ?h ?n r (Some a)"
      by (rule rep_cong) (simp add: ne)
    then show ?thesis using rr by simp
  qed
  have cr': "crep ?h' ?n fs a (root s)"
  proof -
    have "crep ?h' ?n fs a (root s) = crep ?h ?n fs a (root s)"
      by (rule crep_cong) (use ne in auto)
    then show ?thesis using cr by simp
  qed
  have "?h' ?n = createNilNode" using nn hn by simp
  then show ?thesis
    unfolding represents_plug using ha rl' rr' cr' di nn fr nf by simp
qed

lemma fixInsert_body_R1:
  assumes R: "represents s (plug (f1 # RightOf (Bin ul ua RED uk ur) g cg kg # fs) (Bin l k ck kk r))"
  shows "\<exists>s'. fixInsert_body s k = Inr (s', g)
     \<and> represents s' (plug fs (Bin (Bin ul ua BLACK uk ur) g RED kg
          (Bin (case f1 of LeftOf _ _ _ _ \<Rightarrow> Bin l k ck kk r | RightOf t _ _ _ \<Rightarrow> t)
               (faddr f1) BLACK (fkey f1)
               (case f1 of LeftOf _ _ _ t \<Rightarrow> t | RightOf _ _ _ _ \<Rightarrow> Bin l k ck kk r))))
     \<and> NIL s' = NIL s \<and> fresh s' = fresh s"
proof -
  let ?t = "Bin l k ck kk r" and ?u = "Bin ul ua RED uk ur"
  let ?p = "faddr f1"
  have pk: "parent (heap s k) = Some ?p"
    using represents_cell(5) [OF R refl] by simp
  have pp: "parent (heap s ?p) = Some g"
    by (cases f1) (use represents_cell(5) [OF R, of "RightOf ?u g cg kg # fs"] in auto)
  have cg: "right (heap s g) = Some ?p" "left (heap s g) = Some ua"
    using represents_cell(3,4) [OF R, of fs ?u g cg kg "fill f1 ?t"] by simp_all
  have cu: "color (heap s ua) = RED"
    using represents_cell(2) [OF R, of "LeftOf g cg kg (fill f1 ?t) # fs" ul ua RED uk ur] by simp
  let ?s1 = "set_color s ua BLACK"
  have R1: "represents ?s1 (plug (LeftOf g cg kg (fill f1 ?t) # fs) (Bin ul ua BLACK uk ur))"
    by (rule set_color_represents [OF R]) simp
  let ?s2 = "set_color ?s1 ?p BLACK"
  let ?pt = "Bin (case f1 of LeftOf _ _ _ _ \<Rightarrow> ?t | RightOf t _ _ _ \<Rightarrow> t)
               (faddr f1) BLACK (fkey f1)
               (case f1 of LeftOf _ _ _ t \<Rightarrow> t | RightOf _ _ _ _ \<Rightarrow> ?t)"
  have R2: "represents ?s2 (plug (RightOf (Bin ul ua BLACK uk ur) g cg kg # fs) ?pt)"
    by (cases f1) (use set_color_represents [OF R1, of "RightOf (Bin ul ua BLACK uk ur) g cg kg # fs"] in auto)
  let ?s3 = "set_color ?s2 g RED"
  have R3: "represents ?s3 (plug fs (Bin (Bin ul ua BLACK uk ur) g RED kg ?pt))"
    by (rule set_color_represents [OF R2]) simp
  have "fixInsert_body s k = Inr (?s3, g)"
    unfolding fixInsert_body_def by (simp add: pk pp cg cu)
  then show ?thesis using R3 by simp
qed

lemma represents_col:
  assumes "represents s T" and "T = plug fs u" and "col u = BLACK"
  shows "color (heap s (addr_of (NIL s) u)) = BLACK"
proof (cases u)
  case Tip
  have "heap s (NIL s) = createNilNode" using assms(1) by (simp add: represents_def)
  then show ?thesis using Tip by (simp add: createNilNode_def)
next
  case (Bin l a c k r)
  then show ?thesis using represents_cell(2) [OF assms(1), of fs l a c k r] assms(2,3) by simp
qed

lemma represents_addr_neq:
  assumes "represents s T" and "T = plug fs (Bin l a c k r)"
  shows "addr_of (NIL s) l \<noteq> a" "addr_of (NIL s) r \<noteq> a"
    "x \<in> set (addrs l) \<Longrightarrow> addr_of (NIL s) r \<noteq> x"
    "x \<in> set (addrs r) \<Longrightarrow> addr_of (NIL s) l \<noteq> x"
proof -
  from assms have di: "distinct (abefore fs @ (addrs l @ a # addrs r) @ aafter fs)"
    and nn: "NIL s \<notin> set (abefore fs @ (addrs l @ a # addrs r) @ aafter fs)"
    by (simp_all add: represents_plug)
  show "addr_of (NIL s) l \<noteq> a" using di nn by (intro addr_of_neq) auto
  show "addr_of (NIL s) r \<noteq> a" using di nn by (intro addr_of_neq) auto
  show "x \<in> set (addrs l) \<Longrightarrow> addr_of (NIL s) r \<noteq> x" using di nn by (intro addr_of_neq) auto
  show "x \<in> set (addrs r) \<Longrightarrow> addr_of (NIL s) l \<noteq> x" using di nn by (intro addr_of_neq) auto
qed

lemma case3_right_represents:
  assumes R: "represents s (plug (RightOf sib p cp kp # RightOf u g cg kg # fs) (Bin l k ck kk r))"
  shows "\<exists>s'. case3_right s k = Inr s'
     \<and> represents s' (plug fs (Bin (Bin u g RED kg sib) p BLACK kp (Bin l k ck kk r)))
     \<and> NIL s' = NIL s \<and> fresh s' = fresh s"
proof -
  let ?t = "Bin l k ck kk r"
  have pk: "parent (heap s k) = Some p"
    using represents_cell(5) [OF R refl] by simp
  have pp: "parent (heap s p) = Some g"
    using represents_cell(5) [OF R, of "RightOf u g cg kg # fs" sib p cp kp ?t] by simp
  let ?s1 = "set_color s p BLACK"
  have R1: "represents ?s1 (plug (RightOf u g cg kg # fs) (Bin sib p BLACK kp ?t))"
    by (rule set_color_represents [OF R]) simp
  let ?s2 = "set_color ?s1 g RED"
  have R2: "represents ?s2 (plug fs (Bin u g RED kg (Bin sib p BLACK kp ?t)))"
    by (rule set_color_represents [OF R1]) simp
  from leftRotate_represents [OF R2] obtain s' where
    "leftRotate ?s2 g = Inr s'"
    "represents s' (plug fs (Bin (Bin u g RED kg sib) p BLACK kp ?t))"
    "NIL s' = NIL s" "fresh s' = fresh s"
    by auto
  moreover have "case3_right s k = leftRotate ?s2 g"
    unfolding case3_right_def by (simp add: pk pp)
  ultimately show ?thesis by simp
qed

lemma uncle_not_red:
  assumes R: "represents s T" and T: "T = plug fs u" and u: "col u = BLACK"
  shows "\<not> (case Some (addr_of (NIL s) u) of None \<Rightarrow> False | Some ua \<Rightarrow> color (heap s ua) = RED)"
  using represents_col [OF R T u] by simp

lemma fixInsert_body_R3:
  assumes R: "represents s (plug (RightOf sib p cp kp # RightOf u g cg kg # fs) (Bin l k ck kk r))"
    and u: "col u = BLACK"
  shows "\<exists>s'. fixInsert_body s k = Inr (s', k)
     \<and> represents s' (plug fs (Bin (Bin u g RED kg sib) p BLACK kp (Bin l k ck kk r)))
     \<and> NIL s' = NIL s \<and> fresh s' = fresh s"
proof -
  let ?t = "Bin l k ck kk r"
  have pk: "parent (heap s k) = Some p"
    using represents_cell(5) [OF R refl] by simp
  have pp: "parent (heap s p) = Some g" and lp: "left (heap s p) = Some (addr_of (NIL s) sib)"
    using represents_cell(3,5) [OF R, of "RightOf u g cg kg # fs" sib p cp kp ?t] by simp_all
  have cg: "right (heap s g) = Some p" "left (heap s g) = Some (addr_of (NIL s) u)"
    using represents_cell(3,4) [OF R, of fs u g cg kg "Bin sib p cp kp ?t"] by simp_all
  have nr: "\<not> (case Some (addr_of (NIL s) u) of None \<Rightarrow> False | Some ua \<Rightarrow> color (heap s ua) = RED)"
    by (rule uncle_not_red [OF R _ u, of "LeftOf g cg kg (Bin sib p cp kp ?t) # fs"]) simp
  have nk: "addr_of (NIL s) sib \<noteq> k"
    by (rule represents_addr_neq(4) [OF R, of "RightOf u g cg kg # fs" sib p cp kp ?t]) simp_all
  from case3_right_represents [OF R] obtain s' where
    s': "case3_right s k = Inr s'"
    "represents s' (plug fs (Bin (Bin u g RED kg sib) p BLACK kp ?t))"
    "NIL s' = NIL s" "fresh s' = fresh s"
    by auto
  have "fixInsert_body s k = Inr (s', k)"
    unfolding fixInsert_body_def using nr nk by (simp add: pk pp cg lp s')
  then show ?thesis using s' by simp
qed

lemma fixInsert_body_R2:
  assumes R: "represents s (plug (LeftOf p cp kp sib # RightOf u g cg kg # fs) (Bin l k ck kk r))"
    and u: "col u = BLACK"
  shows "\<exists>s'. fixInsert_body s k = Inr (s', p)
     \<and> represents s' (plug fs (Bin (Bin u g RED kg l) k BLACK kk (Bin r p cp kp sib)))
     \<and> NIL s' = NIL s \<and> fresh s' = fresh s"
proof -
  let ?t = "Bin l k ck kk r"
  have pk: "parent (heap s k) = Some p"
    using represents_cell(5) [OF R refl] by simp
  have pp: "parent (heap s p) = Some g" and lp: "left (heap s p) = Some k"
    using represents_cell(3,5) [OF R, of "RightOf u g cg kg # fs" ?t p cp kp sib] by simp_all
  have cg: "right (heap s g) = Some p" "left (heap s g) = Some (addr_of (NIL s) u)"
    using represents_cell(3,4) [OF R, of fs u g cg kg "Bin ?t p cp kp sib"] by simp_all
  have nr: "\<not> (case Some (addr_of (NIL s) u) of None \<Rightarrow> False | Some ua \<Rightarrow> color (heap s ua) = RED)"
    by (rule uncle_not_red [OF R _ u, of "LeftOf g cg kg (Bin ?t p cp kp sib) # fs"]) simp
  have R': "represents s (plug (RightOf u g cg kg # fs) (Bin (Bin l k ck kk r) p cp kp sib))"
    using R by simp
  from rightRotate_represents [OF R'] obtain s1 where
    s1: "rightRotate s p = Inr s1"
    "represents s1 (plug (RightOf u g cg kg # fs) (Bin l k ck kk (Bin r p cp kp sib)))"
    "NIL s1 = NIL s" "fresh s1 = fresh s"
    by auto
  have R1: "represents s1 (plug (RightOf l k ck kk # RightOf u g cg kg # fs) (Bin r p cp kp sib))"
    using s1(2) by simp
  from case3_right_represents [OF R1] obtain s' where
    s': "case3_right s1 p = Inr s'"
    "represents s' (plug fs (Bin (Bin u g RED kg l) k BLACK kk (Bin r p cp kp sib)))"
    "NIL s' = NIL s" "fresh s' = fresh s"
    using s1(3,4) by auto
  have "fixInsert_body s k = Inr (s', p)"
    unfolding fixInsert_body_def using nr by (simp add: pk pp cg lp s1 s')
  then show ?thesis using s' by simp
qed

lemma fixInsert_body_L1:
  assumes R: "represents s (plug (f1 # LeftOf g cg kg (Bin ul ua RED uk ur) # fs) (Bin l k ck kk r))"
  shows "\<exists>s'. fixInsert_body s k = Inr (s', g)
     \<and> represents s' (plug fs (Bin
          (Bin (case f1 of LeftOf _ _ _ _ \<Rightarrow> Bin l k ck kk r | RightOf t _ _ _ \<Rightarrow> t)
               (faddr f1) BLACK (fkey f1)
               (case f1 of LeftOf _ _ _ t \<Rightarrow> t | RightOf _ _ _ _ \<Rightarrow> Bin l k ck kk r))
          g RED kg (Bin ul ua BLACK uk ur)))
     \<and> NIL s' = NIL s \<and> fresh s' = fresh s"
proof -
  let ?t = "Bin l k ck kk r" and ?u = "Bin ul ua RED uk ur"
  let ?p = "faddr f1"
  have pk: "parent (heap s k) = Some ?p"
    using represents_cell(5) [OF R refl] by simp
  have pp: "parent (heap s ?p) = Some g"
    by (cases f1) (use represents_cell(5) [OF R, of "LeftOf g cg kg ?u # fs"] in auto)
  have cg: "left (heap s g) = Some ?p" "right (heap s g) = Some ua"
    using represents_cell(3,4) [OF R, of fs "fill f1 ?t" g cg kg ?u] by simp_all
  have np: "ua \<noteq> ?p"
    using represents_addr_neq(3) [OF R, of fs "fill f1 ?t" g cg kg ?u ?p]
    by (cases f1) auto
  have cu: "color (heap s ua) = RED"
    using represents_cell(2) [OF R, of "RightOf (fill f1 ?t) g cg kg # fs" ul ua RED uk ur] by simp
  let ?s1 = "set_color s ua BLACK"
  have R1: "represents ?s1 (plug (RightOf (fill f1 ?t) g cg kg # fs) (Bin ul ua BLACK uk ur))"
    by (rule set_color_represents [OF R]) simp
  let ?s2 = "set_color ?s1 ?p BLACK"
  let ?pt = "Bin (case f1 of LeftOf _ _ _ _ \<Rightarrow> ?t | RightOf t _ _ _ \<Rightarrow> t)
               (faddr f1) BLACK (fkey f1)
               (case f1 of LeftOf _ _ _ t \<Rightarrow> t | RightOf _ _ _ _ \<Rightarrow> ?t)"
  have R2: "represents ?s2 (plug (LeftOf g cg kg (Bin ul ua BLACK uk ur) # fs) ?pt)"
    by (cases f1) (use set_color_represents [OF R1, of "LeftOf g cg kg (Bin ul ua BLACK uk ur) # fs"] in auto)
  let ?s3 = "set_color ?s2 g RED"
  have R3: "represents ?s3 (plug fs (Bin ?pt g RED kg (Bin ul ua BLACK uk ur)))"
    by (rule set_color_represents [OF R2]) simp
  have "fixInsert_body s k = Inr (?s3, g)"
    unfolding fixInsert_body_def using np by (simp add: pk pp cg cu)
  then show ?thesis using R3 by simp
qed

lemma case3_left_represents:
  assumes R: "represents s (plug (LeftOf p cp kp sib # LeftOf g cg kg u # fs) (Bin l k ck kk r))"
  shows "\<exists>s'. case3_left s k = Inr s'
     \<and> represents s' (plug fs (Bin (Bin l k ck kk r) p BLACK kp (Bin sib g RED kg u)))
     \<and> NIL s' = NIL s \<and> fresh s' = fresh s"
proof -
  let ?t = "Bin l k ck kk r"
  have pk: "parent (heap s k) = Some p"
    using represents_cell(5) [OF R refl] by simp
  have pp: "parent (heap s p) = Some g"
    using represents_cell(5) [OF R, of "LeftOf g cg kg u # fs" ?t p cp kp sib] by simp
  let ?s1 = "set_color s p BLACK"
  have R1: "represents ?s1 (plug (LeftOf g cg kg u # fs) (Bin ?t p BLACK kp sib))"
    by (rule set_color_represents [OF R]) simp
  let ?s2 = "set_color ?s1 g RED"
  have R2: "represents ?s2 (plug fs (Bin (Bin ?t p BLACK kp sib) g RED kg u))"
    by (rule set_color_represents [OF R1]) simp
  from rightRotate_represents [OF R2] obtain s' where
    "rightRotate ?s2 g = Inr s'"
    "represents s' (plug fs (Bin ?t p BLACK kp (Bin sib g RED kg u)))"
    "NIL s' = NIL s" "fresh s' = fresh s"
    by auto
  moreover have "case3_left s k = rightRotate ?s2 g"
    unfolding case3_left_def by (simp add: pk pp)
  ultimately show ?thesis by simp
qed

lemma fixInsert_body_L3:
  assumes R: "represents s (plug (LeftOf p cp kp sib # LeftOf g cg kg u # fs) (Bin l k ck kk r))"
    and u: "col u = BLACK"
  shows "\<exists>s'. fixInsert_body s k = Inr (s', k)
     \<and> represents s' (plug fs (Bin (Bin l k ck kk r) p BLACK kp (Bin sib g RED kg u)))
     \<and> NIL s' = NIL s \<and> fresh s' = fresh s"
proof -
  let ?t = "Bin l k ck kk r"
  have pk: "parent (heap s k) = Some p"
    using represents_cell(5) [OF R refl] by simp
  have pp: "parent (heap s p) = Some g" and rp: "right (heap s p) = Some (addr_of (NIL s) sib)"
    using represents_cell(4,5) [OF R, of "LeftOf g cg kg u # fs" ?t p cp kp sib] by simp_all
  have cg: "left (heap s g) = Some p" "right (heap s g) = Some (addr_of (NIL s) u)"
    using represents_cell(3,4) [OF R, of fs "Bin ?t p cp kp sib" g cg kg u] by simp_all
  have np: "addr_of (NIL s) u \<noteq> p"
    by (rule represents_addr_neq(3) [OF R, of fs "Bin ?t p cp kp sib" g cg kg u]) simp_all
  have nr: "\<not> (case Some (addr_of (NIL s) u) of None \<Rightarrow> False | Some ua \<Rightarrow> color (heap s ua) = RED)"
    by (rule uncle_not_red [OF R _ u, of "RightOf (Bin ?t p cp kp sib) g cg kg # fs"]) simp
  have nk: "addr_of (NIL s) sib \<noteq> k"
    by (rule represents_addr_neq(3) [OF R, of "LeftOf g cg kg u # fs" ?t p cp kp sib]) simp_all
  from case3_left_represents [OF R] obtain s' where
    s': "case3_left s k = Inr s'"
    "represents s' (plug fs (Bin ?t p BLACK kp (Bin sib g RED kg u)))"
    "NIL s' = NIL s" "fresh s' = fresh s"
    by auto
  have "fixInsert_body s k = Inr (s', k)"
    unfolding fixInsert_body_def using nr nk np by (simp add: pk pp cg rp s')
  then show ?thesis using s' by simp
qed

lemma fixInsert_body_L2:
  assumes R: "represents s (plug (RightOf sib p cp kp # LeftOf g cg kg u # fs) (Bin l k ck kk r))"
    and u: "col u = BLACK"
  shows "\<exists>s'. fixInsert_body s k = Inr (s', p)
     \<and> represents s' (plug fs (Bin (Bin sib p cp kp l) k BLACK kk (Bin r g RED kg u)))
     \<and> NIL s' = NIL s \<and> fresh s' = fresh s"
proof -
  let ?t = "Bin l k ck kk r"
  have pk: "parent (heap s k) = Some p"
    using represents_cell(5) [OF R refl] by simp
  have pp: "parent (heap s p) = Some g" and rp: "right (heap s p) = Some k"
    using represents_cell(4,5) [OF R, of "LeftOf g cg kg u # fs" sib p cp kp ?t] by simp_all
  have cg: "left (heap s g) = Some p" "right (heap s g) = Some (addr_of (NIL s) u)"
    using represents_cell(3,4) [OF R, of fs "Bin sib p cp kp ?t" g cg kg u] by simp_all
  have np: "addr_of (NIL s) u \<noteq> p"
    by (rule represents_addr_neq(3) [OF R, of fs "Bin sib p cp kp ?t" g cg kg u]) simp_all
  have nr: "\<not> (case Some (addr_of (NIL s) u) of None \<Rightarrow> False | Some ua \<Rightarrow> color (heap s ua) = RED)"
    by (rule uncle_not_red [OF R _ u, of "RightOf (Bin sib p cp kp ?t) g cg kg # fs"]) simp
  have R': "represents s (plug (LeftOf g cg kg u # fs) (Bin sib p cp kp (Bin l k ck kk r)))"
    using R by simp
  from leftRotate_represents [OF R'] obtain s1 where
    s1: "leftRotate s p = Inr s1"
    "represents s1 (plug (LeftOf g cg kg u # fs) (Bin (Bin sib p cp kp l) k ck kk r))"
    "NIL s1 = NIL s" "fresh s1 = fresh s"
    by auto
  have R1: "represents s1 (plug (LeftOf k ck kk r # LeftOf g cg kg u # fs) (Bin sib p cp kp l))"
    using s1(2) by simp
  from case3_left_represents [OF R1] obtain s' where
    s': "case3_left s1 p = Inr s'"
    "represents s' (plug fs (Bin (Bin sib p cp kp l) k BLACK kk (Bin r g RED kg u)))"
    "NIL s' = NIL s" "fresh s' = fresh s"
    using s1(3,4) by auto
  have "fixInsert_body s k = Inr (s', p)"
    unfolding fixInsert_body_def using nr np by (simp add: pk pp cg rp s1 s')
  then show ?thesis using s' by simp
qed

lemma represents_frame_cell:
  assumes "represents s (plug (f # fs) t)"
  shows "color (heap s (faddr f)) = fcol f" "parent (heap s (faddr f)) = cparent fs"
  by (cases f; use represents_cell(2,5) [OF assms, of fs] in auto)+

lemma addr_of_plug: "fs \<noteq> [] \<Longrightarrow> addr_of nil (plug fs t) = faddr (last fs)"
  by (induction fs arbitrary: t) auto

lemma faddr_last_in: "fs \<noteq> [] \<Longrightarrow> faddr (last fs) \<in> set (abefore fs @ aafter fs)"
  by (induction fs rule: abefore.induct) auto

lemma not_root:
  assumes "represents s (plug (f # fs) (Bin l a c k r))"
  shows "a \<noteq> root s"
proof -
  from assms have di: "distinct (abefore (f # fs) @ (addrs l @ a # addrs r) @ aafter (f # fs))"
    and rt: "addr_of (NIL s) (plug (f # fs) (Bin l a c k r)) = root s"
    unfolding represents_def addrs_plug by simp_all
  have "root s = faddr (last (f # fs))"
    using rt addr_of_plug [of "f # fs"] by simp
  moreover have "faddr (last (f # fs)) \<in> set (abefore (f # fs) @ aafter (f # fs))"
    by (rule faddr_last_in) simp
  ultimately show ?thesis using di by auto
qed

lemma fixInsert_loop_root:
  assumes "represents s (Bin l a c k r)"
  shows "fixInsert_loop s a = Some (Inr s)"
proof -
  have "parent (heap s a) = None"
    using represents_cell(5) [OF assms, of "[]" l a c k r] by simp
  then show ?thesis by (subst fixInsert_loop.simps) simp
qed

lemma fixInsert_loop_stop:
  assumes "represents s (plug (f # fs) (Bin l a c k r))" and "fcol f = BLACK"
  shows "fixInsert_loop s a = Some (Inr s)"
proof -
  have "parent (heap s a) = Some (faddr f)"
    using represents_cell(5) [OF assms(1) refl] by simp
  moreover have "color (heap s (faddr f)) = BLACK"
    using represents_frame_cell(1) [OF assms(1)] assms(2) by simp
  ultimately show ?thesis by (subst fixInsert_loop.simps) simp
qed

lemma fixInsert_loop_step:
  assumes "represents s (plug (f # fs) (Bin l a c k r))" and "fcol f = RED"
    and "fixInsert_body s a = Inr (s1, a1)"
  shows "fixInsert_loop s a = (if a1 = root s1 then Some (Inr s1) else fixInsert_loop s1 a1)"
proof -
  have "parent (heap s a) = Some (faddr f)"
    using represents_cell(5) [OF assms(1) refl] by simp
  moreover have "color (heap s (faddr f)) = RED"
    using represents_frame_cell(1) [OF assms(1)] assms(2) by simp
  ultimately show ?thesis using assms(3) by (subst fixInsert_loop.simps) simp
qed

lemma col_BLACK_cases: "col u = BLACK \<or> (\<exists>ul ua uk ur. u = Bin ul ua RED uk ur)"
proof (cases u)
  case Tip
  then show ?thesis by simp
next
  case (Bin ul ua uc uk ur)
  then show ?thesis by (cases uc) auto
qed

subsection \<open>The fix-up loop\<close>

lemma neq_BLACK [simp]: "(c \<noteq> BLACK) = (c = RED)"
  by (cases c) auto

lemma fill_fpaint:
  "Bin (case f of LeftOf _ _ _ _ \<Rightarrow> t | RightOf u _ _ _ \<Rightarrow> u) (faddr f) c (fkey f)
       (case f of LeftOf _ _ _ u \<Rightarrow> u | RightOf _ _ _ _ \<Rightarrow> t) = fill (fpaint c f) t"
  by (cases f) auto

lemma fill_facts:
  "invc (fill f t) = (invc t \<and> invc (fsib f) \<and> (fcol f = RED \<longrightarrow> col t = BLACK \<and> col (fsib f) = BLACK))"
  "invh (fill f t) = (bh t = bh (fsib f) \<and> invh t \<and> invh (fsib f))"
  "col (fill f t) = fcol f"
  "bh t = bh (fsib f) \<Longrightarrow> bh (fill f t) = (if fcol f = BLACK then Suc (bh t) else bh t)"
  by (cases f; auto)+

lemma fpaint_facts [simp]:
  "fsib (fpaint c f) = fsib f" "fcol (fpaint c f) = c" "faddr (fpaint c f) = faddr f"
  "keys (fill (fpaint c f) t) = keys (fill f t)"
  by (cases f; simp)+

lemma fixInsert_loop_ok:
  assumes "represents s (plug fs (Bin l k RED kk r))"
    and "col l = BLACK" "col r = BLACK" "invc l" "invc r" "invh (Bin l k RED kk r)"
    and "cinv fs (bh l)" and "fs \<noteq> [] \<longrightarrow> fcol (last fs) = BLACK"
  shows "\<exists>s' T. fixInsert_loop s k = Some (Inr s') \<and> represents s' T \<and> T \<noteq> Tip
      \<and> invc2 T \<and> invh T \<and> keys T = keys (plug fs (Bin l k RED kk r))
      \<and> NIL s' = NIL s \<and> fresh s' = fresh s"
  using assms
proof (induction "length fs" arbitrary: fs s l k kk r rule: less_induct)
  case less
  let ?t = "Bin l k RED kk r"
  note R = less.prems(1)
  have it: "invc ?t" "invh ?t" using less.prems by simp_all
  show ?case
  proof (cases fs)
    case Nil
    have "fixInsert_loop s k = Some (Inr s)"
      by (rule fixInsert_loop_root) (use R Nil in simp)
    moreover have "invc2 ?t" "invh ?t" using less.prems by simp_all
    ultimately show ?thesis using R Nil by auto
  next
    case (Cons f1 fs1)
    show ?thesis
    proof (cases "fcol f1")
      case BLACK
      have "fixInsert_loop s k = Some (Inr s)"
        by (rule fixInsert_loop_stop) (use R Cons BLACK in auto)
      moreover have "invc (plug fs ?t) \<and> invh (plug fs ?t)"
        unfolding inv_plug using it less.prems(7) Cons BLACK by simp
      moreover have "invc2 (plug fs ?t)"
        using calculation(2) by (cases "plug fs ?t") auto
      moreover have "plug fs ?t \<noteq> Tip"
      proof
        assume "plug fs ?t = Tip"
        then have "addrs (plug fs ?t) = []" by simp
        then show False unfolding addrs_plug by simp
      qed
      ultimately show ?thesis using R by auto
    next
      case RED
      have "fs1 \<noteq> []" using less.prems(8) Cons RED by auto
      then obtain f2 fs2 where fs1: "fs1 = f2 # fs2" by (cases fs1) auto
      have fs: "fs = f1 # f2 # fs2" using Cons fs1 by simp
      have c1: "invc (fsib f1)" "invh (fsib f1)" "bh (fsib f1) = bh l" "col (fsib f1) = BLACK"
        and b2: "fcol f2 = BLACK"
        and c2: "invc (fsib f2)" "invh (fsib f2)" "bh (fsib f2) = bh l"
        and c3: "cinv fs2 (Suc (bh l))"
        using less.prems(7) RED unfolding fs by (auto split: if_splits)
      have l2: "fs2 \<noteq> [] \<longrightarrow> fcol (last fs2) = BLACK"
        using less.prems(8) fs by auto
      have keq: "keys (plug fs ?t) = kbefore fs2 @ keys (fill f2 (fill f1 ?t)) @ kafter fs2"
        unfolding fs by (simp add: keys_plug)
      have case1: "\<exists>s' T. fixInsert_loop s k = Some (Inr s') \<and> represents s' T \<and> T \<noteq> Tip
          \<and> invc2 T \<and> invh T \<and> keys T = keys (plug fs ?t) \<and> NIL s' = NIL s \<and> fresh s' = fresh s"
        if b: "fixInsert_body s k = Inr (s1, g)" and R1: "represents s1 (plug fs2 (Bin l' g RED kg r'))"
          and m: "NIL s1 = NIL s" "fresh s1 = fresh s"
          and p: "col l' = BLACK" "col r' = BLACK" "invc l'" "invc r'" "invh (Bin l' g RED kg r')"
            "bh l' = Suc (bh l)"
          and ke: "keys (Bin l' g RED kg r') = keys (fill f2 (fill f1 ?t))"
        for s1 g l' kg r'
      proof -
        have st: "fixInsert_loop s k = (if g = root s1 then Some (Inr s1) else fixInsert_loop s1 g)"
          by (rule fixInsert_loop_step [OF _ RED b]) (use R Cons in simp)
        have keq': "keys (plug fs2 (Bin l' g RED kg r')) = keys (plug fs ?t)"
          using keq ke by (simp add: keys_plug)
        show ?thesis
        proof (cases "g = root s1")
          case True
          have "fs2 = []"
          proof (rule ccontr)
            assume "fs2 \<noteq> []"
            then obtain f3 fs3 where "fs2 = f3 # fs3" by (cases fs2) auto
            then show False using not_root [of s1 f3 fs3 l' g RED kg r'] R1 True by simp
          qed
          then have "represents s1 (Bin l' g RED kg r')" "keys (Bin l' g RED kg r') = keys (plug fs ?t)"
            using R1 keq' by simp_all
          moreover have "invc2 (Bin l' g RED kg r')" "invh (Bin l' g RED kg r')" using p by simp_all
          ultimately show ?thesis using st True m by (intro exI [of _ s1] exI [of _ "Bin l' g RED kg r'"]) simp
        next
          case False
          have "length fs2 < length fs" using fs by simp
          from less.hyps [OF this R1 p(1-5)] c3 l2 p(6)
          obtain s' T where "fixInsert_loop s1 g = Some (Inr s')" "represents s' T" "T \<noteq> Tip"
            "invc2 T" "invh T" "keys T = keys (plug fs2 (Bin l' g RED kg r'))"
            "NIL s' = NIL s1" "fresh s' = fresh s1"
            by auto
          then show ?thesis using st False m keq' by (intro exI [of _ s'] exI [of _ T]) simp
        qed
      qed
      have case3: "\<exists>s' T. fixInsert_loop s k = Some (Inr s') \<and> represents s' T \<and> T \<noteq> Tip
          \<and> invc2 T \<and> invh T \<and> keys T = keys (plug fs ?t) \<and> NIL s' = NIL s \<and> fresh s' = fresh s"
        if b: "fixInsert_body s k = Inr (s1, k1)"
          and R1: "represents s1 (plug fs2 (fill f (Bin l' k1 c' kk' r')))"
          and m: "NIL s1 = NIL s" "fresh s1 = fresh s"
          and p: "fcol f = BLACK" "invc (fill f (Bin l' k1 c' kk' r'))" "invh (fill f (Bin l' k1 c' kk' r'))"
            "bh (fill f (Bin l' k1 c' kk' r')) = Suc (bh l)"
          and ke: "keys (fill f (Bin l' k1 c' kk' r')) = keys (fill f2 (fill f1 ?t))"
        for s1 k1 f l' c' kk' r'
      proof -
        let ?T = "plug fs2 (fill f (Bin l' k1 c' kk' r'))"
        have R1': "represents s1 (plug (f # fs2) (Bin l' k1 c' kk' r'))" using R1 by simp
        have st: "fixInsert_loop s k = (if k1 = root s1 then Some (Inr s1) else fixInsert_loop s1 k1)"
          by (rule fixInsert_loop_step [OF _ RED b]) (use R Cons in simp)
        have "k1 \<noteq> root s1" by (rule not_root [OF R1'])
        moreover have "fixInsert_loop s1 k1 = Some (Inr s1)"
          by (rule fixInsert_loop_stop [OF R1' p(1)])
        ultimately have 1: "fixInsert_loop s k = Some (Inr s1)" using st by simp
        have 2: "invc ?T \<and> invh ?T"
          unfolding inv_plug using p c3 by (simp add: fill_facts)
        then have 3: "invc2 ?T" by (cases ?T) auto
        have 4: "?T \<noteq> Tip"
        proof
          assume "?T = Tip"
          then have "addrs ?T = []" by simp
          then show False unfolding addrs_plug by (cases f) auto
        qed
        have 5: "keys ?T = keys (plug fs ?t)"
          using keq ke by (simp add: keys_plug)
        show ?thesis using 1 2 3 4 5 R1 m by (intro exI [of _ s1] exI [of _ ?T]) simp
      qed
      show ?thesis
      proof (cases f2)
        case (RightOf u g cg kg)
        have cg: "cg = BLACK" using b2 RightOf by simp
        have cu: "invc u" "invh u" "bh u = bh l" using c2 RightOf by simp_all
        from col_BLACK_cases [of u] show ?thesis
        proof
          assume "\<exists>ul ua uk ur. u = Bin ul ua RED uk ur"
          then obtain ul ua uk ur where u: "u = Bin ul ua RED uk ur" by auto
          have R': "represents s (plug (f1 # RightOf (Bin ul ua RED uk ur) g cg kg # fs2) ?t)"
            using R fs RightOf u by simp
          from fixInsert_body_R1 [OF R', unfolded fill_fpaint] obtain s1 where
            s1: "fixInsert_body s k = Inr (s1, g)"
            "represents s1 (plug fs2 (Bin (Bin ul ua BLACK uk ur) g RED kg (fill (fpaint BLACK f1) ?t)))"
            "NIL s1 = NIL s" "fresh s1 = fresh s"
            by auto
          show ?thesis
          proof (rule case1 [OF s1])
            show "col (Bin ul ua BLACK uk ur) = BLACK" by simp
            show "col (fill (fpaint BLACK f1) ?t) = BLACK" by (simp add: fill_facts)
            show "invc (Bin ul ua BLACK uk ur)" using cu u by simp
            show "invc (fill (fpaint BLACK f1) ?t)" using it c1 by (simp add: fill_facts)
            show "invh (Bin (Bin ul ua BLACK uk ur) g RED kg (fill (fpaint BLACK f1) ?t))"
              using it c1 cu u by (simp add: fill_facts)
            show "bh (Bin ul ua BLACK uk ur) = Suc (bh l)" using cu u by simp
            show "keys (Bin (Bin ul ua BLACK uk ur) g RED kg (fill (fpaint BLACK f1) ?t))
                  = keys (fill f2 (fill f1 ?t))"
              using RightOf u by simp
          qed
        next
          assume ub: "col u = BLACK"
          show ?thesis
          proof (cases f1)
            case (LeftOf p cp kp sib)
            have cp: "cp = RED" using RED LeftOf by simp
            have R': "represents s (plug (LeftOf p cp kp sib # RightOf u g cg kg # fs2) ?t)"
              using R fs RightOf LeftOf by simp
            from fixInsert_body_R2 [OF R' ub] obtain s1 where
              s1: "fixInsert_body s k = Inr (s1, p)"
              "represents s1 (plug fs2 (Bin (Bin u g RED kg l) k BLACK kk (Bin r p cp kp sib)))"
              "NIL s1 = NIL s" "fresh s1 = fresh s"
              by auto
            show ?thesis
            proof (rule case3 [OF s1(1) _ s1(3,4), of "RightOf (Bin u g RED kg l) k BLACK kk" r cp kp sib])
              show "represents s1 (plug fs2 (fill (RightOf (Bin u g RED kg l) k BLACK kk) (Bin r p cp kp sib)))"
                using s1(2) by simp
            qed (use it c1 cu ub less.prems RightOf LeftOf cp in auto)
          next
            case (RightOf sib p cp kp)
            note f1 = this
            have cp: "cp = RED" using RED f1 by simp
            have R': "represents s (plug (RightOf sib p cp kp # RightOf u g cg kg # fs2) ?t)"
              using R fs \<open>f2 = RightOf u g cg kg\<close> f1 by simp
            from fixInsert_body_R3 [OF R' ub] obtain s1 where
              s1: "fixInsert_body s k = Inr (s1, k)"
              "represents s1 (plug fs2 (Bin (Bin u g RED kg sib) p BLACK kp ?t))"
              "NIL s1 = NIL s" "fresh s1 = fresh s"
              by auto
            show ?thesis
            proof (rule case3 [OF s1(1) _ s1(3,4), of "RightOf (Bin u g RED kg sib) p BLACK kp" l RED kk r])
              show "represents s1 (plug fs2 (fill (RightOf (Bin u g RED kg sib) p BLACK kp) ?t))"
                using s1(2) by simp
            qed (use it c1 cu ub less.prems \<open>f2 = RightOf u g cg kg\<close> f1 cp in auto)
          qed
        qed
      next
        case (LeftOf g cg kg u)
        have cg: "cg = BLACK" using b2 LeftOf by simp
        have cu: "invc u" "invh u" "bh u = bh l" using c2 LeftOf by simp_all
        from col_BLACK_cases [of u] show ?thesis
        proof
          assume "\<exists>ul ua uk ur. u = Bin ul ua RED uk ur"
          then obtain ul ua uk ur where u: "u = Bin ul ua RED uk ur" by auto
          have R': "represents s (plug (f1 # LeftOf g cg kg (Bin ul ua RED uk ur) # fs2) ?t)"
            using R fs LeftOf u by simp
          from fixInsert_body_L1 [OF R', unfolded fill_fpaint] obtain s1 where
            s1: "fixInsert_body s k = Inr (s1, g)"
            "represents s1 (plug fs2 (Bin (fill (fpaint BLACK f1) ?t) g RED kg (Bin ul ua BLACK uk ur)))"
            "NIL s1 = NIL s" "fresh s1 = fresh s"
            by auto
          show ?thesis
          proof (rule case1 [OF s1])
            show "col (Bin ul ua BLACK uk ur) = BLACK" by simp
            show "col (fill (fpaint BLACK f1) ?t) = BLACK" by (simp add: fill_facts)
            show "invc (Bin ul ua BLACK uk ur)" using cu u by simp
            show "invc (fill (fpaint BLACK f1) ?t)" using it c1 by (simp add: fill_facts)
            show "invh (Bin (fill (fpaint BLACK f1) ?t) g RED kg (Bin ul ua BLACK uk ur))"
              using it c1 cu u by (simp add: fill_facts)
            show "bh (fill (fpaint BLACK f1) ?t) = Suc (bh l)" using it c1 by (simp add: fill_facts)
            show "keys (Bin (fill (fpaint BLACK f1) ?t) g RED kg (Bin ul ua BLACK uk ur))
                  = keys (fill f2 (fill f1 ?t))"
              using LeftOf u by simp
          qed
        next
          assume ub: "col u = BLACK"
          show ?thesis
          proof (cases f1)
            case (RightOf sib p cp kp)
            have cp: "cp = RED" using RED RightOf by simp
            have R': "represents s (plug (RightOf sib p cp kp # LeftOf g cg kg u # fs2) ?t)"
              using R fs RightOf LeftOf by simp
            from fixInsert_body_L2 [OF R' ub] obtain s1 where
              s1: "fixInsert_body s k = Inr (s1, p)"
              "represents s1 (plug fs2 (Bin (Bin sib p cp kp l) k BLACK kk (Bin r g RED kg u)))"
              "NIL s1 = NIL s" "fresh s1 = fresh s"
              by auto
            show ?thesis
            proof (rule case3 [OF s1(1) _ s1(3,4), of "LeftOf k BLACK kk (Bin r g RED kg u)" sib cp kp l])
              show "represents s1 (plug fs2 (fill (LeftOf k BLACK kk (Bin r g RED kg u)) (Bin sib p cp kp l)))"
                using s1(2) by simp
            qed (use it c1 cu ub less.prems RightOf LeftOf cp in auto)
          next
            case (LeftOf p cp kp sib)
            note f1 = this
            have cp: "cp = RED" using RED f1 by simp
            have R': "represents s (plug (LeftOf p cp kp sib # LeftOf g cg kg u # fs2) ?t)"
              using R fs \<open>f2 = LeftOf g cg kg u\<close> f1 by simp
            from fixInsert_body_L3 [OF R' ub] obtain s1 where
              s1: "fixInsert_body s k = Inr (s1, k)"
              "represents s1 (plug fs2 (Bin ?t p BLACK kp (Bin sib g RED kg u)))"
              "NIL s1 = NIL s" "fresh s1 = fresh s"
              by auto
            show ?thesis
            proof (rule case3 [OF s1(1) _ s1(3,4), of "LeftOf p BLACK kp (Bin sib g RED kg u)" l RED kk r])
              show "represents s1 (plug fs2 (fill (LeftOf p BLACK kp (Bin sib g RED kg u)) ?t))"
                using s1(2) by simp
            qed (use it c1 cu ub less.prems \<open>f2 = LeftOf g cg kg u\<close> f1 cp in auto)
          qed
        qed
      qed
    qed
  qed
qed

subsection \<open>Insertion\<close>

lemma descend_dirs: "list_all (dir_ok x) fs \<Longrightarrow> list_all (dir_ok x) (descend x fs t)"
  by (induction t arbitrary: fs) auto

lemma keys_descend:
  "kbefore (descend x fs t) @ kafter (descend x fs t) = keys (plug fs t)"
  using keys_plug [of "descend x fs t" Tip] by (simp add: plug_descend)

lemma descend_bounds:
  "sorted (keys (plug fs t)) \<Longrightarrow> (\<forall>y\<in>set (kbefore fs). y \<le> x) \<Longrightarrow> (\<forall>y\<in>set (kafter fs). x < y)
   \<Longrightarrow> (\<forall>y\<in>set (kbefore (descend x fs t)). y \<le> x) \<and> (\<forall>y\<in>set (kafter (descend x fs t)). x < y)"
proof (induction t arbitrary: fs)
  case Tip
  then show ?case by simp
next
  case (Bin l a c k r)
  have so: "sorted (kbefore fs @ (keys l @ k # keys r) @ kafter fs)"
    using Bin.prems(1) by (simp add: keys_plug)
  show ?case
  proof (cases "x < k")
    case True
    have "\<forall>y\<in>set (keys r). k \<le> y" using so by (auto simp: sorted_append)
    then have "\<forall>y\<in>set (keys r). x < y" using True by (meson less_le_trans)
    then have "\<forall>y\<in>set (kafter (LeftOf a c k r # fs)). x < y"
      using True Bin.prems(3) by auto
    moreover have "sorted (keys (plug (LeftOf a c k r # fs) l))" using Bin.prems(1) by simp
    ultimately show ?thesis
      using Bin.IH(1) [of "LeftOf a c k r # fs"] Bin.prems(2) True by simp
  next
    case False
    have "\<forall>y\<in>set (keys l). y \<le> k" using so by (auto simp: sorted_append)
    moreover have kx: "k \<le> x" using False by simp
    ultimately have "\<forall>y\<in>set (keys l). y \<le> x" by (meson order_trans)
    then have "\<forall>y\<in>set (kbefore (RightOf l a c k # fs)). y \<le> x"
      using kx Bin.prems(2) by auto
    moreover have "sorted (keys (plug (RightOf l a c k # fs) r))" using Bin.prems(1) by simp
    ultimately show ?thesis
      using Bin.IH(2) [of "RightOf l a c k # fs"] Bin.prems(3) False by simp
  qed
qed

lemma insert_descend_ok:
  assumes "represents s (plug fs t)"
  shows "insert_descend s (Some x) (cparent fs) (Some (addr_of (NIL s) t))
         = Some (Inr (cparent (descend x fs t)))"
  using assms
proof (induction t arbitrary: fs)
  case Tip
  then show ?case by (subst insert_descend.simps) simp
next
  case (Bin l a c k r)
  note R = Bin.prems
  have ce: "key (heap s a) = Some k" "left (heap s a) = Some (addr_of (NIL s) l)"
    "right (heap s a) = Some (addr_of (NIL s) r)" "a \<noteq> NIL s"
    using represents_cell [OF R refl] by simp_all
  show ?case
  proof (cases "x < k")
    case True
    have "represents s (plug (LeftOf a c k r # fs) l)" using R by simp
    from Bin.IH(1) [OF this] show ?thesis
      using ce True by (subst insert_descend.simps) simp
  next
    case False
    have "represents s (plug (RightOf l a c k # fs) r)" using R by simp
    from Bin.IH(2) [OF this] show ?thesis
      using ce False by (subst insert_descend.simps) simp
  qed
qed

lemma fixInsert_ok:
  assumes "represents s (plug fs (Bin l k RED kk r))"
    and "col l = BLACK" "col r = BLACK" "invc l" "invc r" "invh (Bin l k RED kk r)"
    and "cinv fs (bh l)" and "fs \<noteq> [] \<longrightarrow> fcol (last fs) = BLACK"
  shows "\<exists>s' T. fixInsert s k = Some (Inr s') \<and> represents s' T \<and> rbt T
      \<and> keys T = keys (plug fs (Bin l k RED kk r))
      \<and> NIL s' = NIL s \<and> fresh s' = fresh s"
proof -
  from fixInsert_loop_ok [OF assms] obtain s1 T where
    1: "fixInsert_loop s k = Some (Inr s1)" "represents s1 T" "T \<noteq> Tip" "invc2 T" "invh T"
    "keys T = keys (plug fs (Bin l k RED kk r))" "NIL s1 = NIL s" "fresh s1 = fresh s"
    by blast
  from 1(3) obtain tl ta tc tk tr where T: "T = Bin tl ta tc tk tr" by (cases T) auto
  have rt: "root s1 = ta" using 1(2) T by (simp add: represents_def)
  have R: "represents (set_color s1 ta BLACK) (plug [] (Bin tl ta BLACK tk tr))"
    by (rule set_color_represents [OF 1(2)]) (simp add: T)
  have "rbt (Bin tl ta BLACK tk tr)" using 1(4,5) T by (simp add: rbt_def)
  moreover have "fixInsert s k = Some (Inr (set_color s1 ta BLACK))"
    by (simp add: fixInsert_def 1(1) rt)
  ultimately show ?thesis using R 1(6,7,8) T
    by (intro exI [of _ "set_color s1 ta BLACK"] exI [of _ "Bin tl ta BLACK tk tr"]) simp
qed

lemma createNode_represents:
  assumes R: "represents s T"
  shows "represents (snd (createNode s x)) T"
    and "fst (createNode s x) = fresh s"
    and "heap (snd (createNode s x)) (fresh s)
         = \<lparr>key = Some x, color = RED, left = Some (NIL s), right = Some (NIL s), parent = None\<rparr>"
    and "NIL (snd (createNode s x)) = NIL s"
    and "fresh (snd (createNode s x)) = Suc (fresh s)"
    and "root (snd (createNode s x)) = root s"
proof -
  let ?s0 = "snd (createNode s x)"
  have lt: "list_all (\<lambda>a. a < fresh s) (addrs T)" and nf: "NIL s < fresh s"
    using R by (simp_all add: represents_def)
  have "rep (heap ?s0) (NIL s) T None = rep (heap s) (NIL s) T None"
  proof (rule rep_cong)
    fix a assume "a \<in> set (addrs T)"
    then have "a \<noteq> fresh s" using lt by (auto simp: list_all_iff)
    then show "heap ?s0 a = heap s a" by (simp add: createNode_def)
  qed
  moreover have "list_all (\<lambda>a. a < Suc (fresh s)) (addrs T)"
    using lt by (auto simp: list_all_iff)
  ultimately show "represents ?s0 T"
    using R nf by (simp add: represents_def createNode_def)
qed (simp_all add: createNode_def)

lemma attach_represents:
  assumes R: "represents s (plug fs Tip)"
    and cell: "key (heap s n) = Some x" "color (heap s n) = RED" "left (heap s n) = Some (NIL s)"
      "right (heap s n) = Some (NIL s)"
    and n: "n \<notin> set (abefore fs @ aafter fs)" "n \<noteq> NIL s" "n < fresh s"
    and d: "list_all (dir_ok x) fs"
  shows "represents
     (case cparent fs of
        None \<Rightarrow> (set_parent s n (cparent fs))\<lparr>root := n\<rparr>
      | Some ya \<Rightarrow>
          if key_lt (key (heap (set_parent s n (cparent fs)) n))
                    (key (heap (set_parent s n (cparent fs)) ya))
          then set_left (set_parent s n (cparent fs)) ya (Some n)
          else set_right (set_parent s n (cparent fs)) ya (Some n))
     (plug fs (Bin Tip n RED x Tip))"
    (is "represents ?s2 _")
proof -
  let ?h = "heap s" and ?nil = "NIL s"
  let ?s1 = "set_parent s n (cparent fs)"
  from R have cr: "crep ?h ?nil fs ?nil (root s)"
    and di: "distinct (abefore fs @ aafter fs)"
    and nn: "?nil \<notin> set (abefore fs @ aafter fs)"
    and fr: "list_all (\<lambda>a. a < fresh s) (abefore fs @ aafter fs)"
    and nf: "?nil < fresh s" and hn: "?h ?nil = createNilNode"
    by (simp_all add: represents_plug)
  have c1: "key (heap ?s1 n) = Some x" "color (heap ?s1 n) = RED" "left (heap ?s1 n) = Some ?nil"
    "right (heap ?s1 n) = Some ?nil" "parent (heap ?s1 n) = cparent fs"
    using cell by simp_all
  have o1: "heap ?s1 z = ?h z" if "z \<noteq> n" for z using that by simp
  show ?thesis
  proof (cases fs rule: abefore.cases)
    case 1
    then show ?thesis
      using c1 n nf hn o1 [of ?nil] unfolding represents_def by simp
  next
    case (2 p c k t fs')
    have pn: "p \<noteq> n" "p \<noteq> ?nil" using n(1) nn 2 by auto
    have kp: "key (?h p) = Some k" using cr 2 by simp
    have xk: "x < k" using d 2 by simp
    have s2: "?s2 = set_left ?s1 p (Some n)"
      using 2 kp xk pn cell(1) by simp
    let ?h2 = "heap (set_left ?s1 p (Some n))"
    have c2: "key (?h2 n) = Some x" "color (?h2 n) = RED" "left (?h2 n) = Some ?nil"
      "right (?h2 n) = Some ?nil" "parent (?h2 n) = Some p"
      using cell pn 2 by simp_all
    have o2: "?h2 z = ?h z" if "z \<noteq> n" "z \<noteq> p" for z using that by simp
    have "crep ?h2 ?nil (LeftOf p c k t # fs') n (root s)"
    proof (rule crep_rechild_L)
      show "crep ?h ?nil (LeftOf p c k t # fs') ?nil (root s)" using cr 2 by simp
      show "key (?h2 p) = key (?h p)" "color (?h2 p) = color (?h p)"
        "right (?h2 p) = right (?h p)" "parent (?h2 p) = parent (?h p)" "left (?h2 p) = Some n"
        using pn by simp_all
    next
      fix z assume z: "z \<in> set (addrs t) \<union> set (abefore fs' @ aafter fs')"
      then have "z \<noteq> n" "z \<noteq> p" using n(1) di 2 by auto
      then show "?h2 z = ?h z" by (rule o2)
    qed
    moreover have "?h2 ?nil = createNilNode" using o2 [of ?nil] n(2) pn hn by simp
    ultimately show ?thesis
      unfolding s2 represents_plug using c2 2 di nn fr nf n by simp
  next
    case (3 t p c k fs')
    have pn: "p \<noteq> n" "p \<noteq> ?nil" using n(1) nn 3 by auto
    have kp: "key (?h p) = Some k" using cr 3 by simp
    have xk: "\<not> x < k" using d 3 by simp
    have s2: "?s2 = set_right ?s1 p (Some n)"
      using 3 kp xk pn cell(1) by simp
    let ?h2 = "heap (set_right ?s1 p (Some n))"
    have c2: "key (?h2 n) = Some x" "color (?h2 n) = RED" "left (?h2 n) = Some ?nil"
      "right (?h2 n) = Some ?nil" "parent (?h2 n) = Some p"
      using cell pn 3 by simp_all
    have o2: "?h2 z = ?h z" if "z \<noteq> n" "z \<noteq> p" for z using that by simp
    have "crep ?h2 ?nil (RightOf t p c k # fs') n (root s)"
    proof (rule crep_rechild_R)
      show "crep ?h ?nil (RightOf t p c k # fs') ?nil (root s)" using cr 3 by simp
      show "key (?h2 p) = key (?h p)" "color (?h2 p) = color (?h p)"
        "left (?h2 p) = left (?h p)" "parent (?h2 p) = parent (?h p)" "right (?h2 p) = Some n"
        using pn by simp_all
    next
      fix z assume z: "z \<in> set (addrs t) \<union> set (abefore fs' @ aafter fs')"
      then have "z \<noteq> n" "z \<noteq> p" using n(1) di 3 by auto
      then show "?h2 z = ?h z" by (rule o2)
    qed
    moreover have "?h2 ?nil = createNilNode" using o2 [of ?nil] n(2) pn hn by simp
    ultimately show ?thesis
      unfolding s2 represents_plug using c2 3 di nn fr nf n by simp
  qed
qed

lemma insertRB_ok:
  assumes R: "represents s T" and rb: "rbt T"
  shows "\<exists>s' T'. insertRB s x = Some (Inr s') \<and> represents s' T' \<and> rbt T'
     \<and> keys T' = ins_keys x T \<and> NIL s' = NIL s \<and> fresh s' = Suc (fresh s)"
proof -
  define fs where "fs = descend x [] T"
  define n where "n = fresh s"
  define s0 where "s0 = snd (createNode s x)"
  let ?new = "Bin Tip n RED x Tip"
  have T: "T = plug fs Tip" by (simp add: fs_def plug_descend)
  have cn: "createNode s x = (n, s0)"
    using createNode_represents(2) [OF R, of x] by (simp add: n_def s0_def prod_eq_iff)
  have R0: "represents s0 T" and h0: "heap s0 n
         = \<lparr>key = Some x, color = RED, left = Some (NIL s), right = Some (NIL s), parent = None\<rparr>"
    and m0: "NIL s0 = NIL s" "fresh s0 = Suc n" "root s0 = root s"
    unfolding s0_def n_def by (rule createNode_represents [OF R])+
  have rt: "root s0 = addr_of (NIL s0) T" using R0 by (simp add: represents_def)
  have de: "insert_descend s0 (key (heap s0 n)) None (Some (root s0)) = Some (Inr (cparent fs))"
    using insert_descend_ok [of s0 "[]" T x] R0 by (simp add: h0 rt fs_def)
  define s2 where "s2 = (case cparent fs of
        None \<Rightarrow> (set_parent s0 n (cparent fs))\<lparr>root := n\<rparr>
      | Some ya \<Rightarrow>
          if key_lt (key (heap (set_parent s0 n (cparent fs)) n))
                    (key (heap (set_parent s0 n (cparent fs)) ya))
          then set_left (set_parent s0 n (cparent fs)) ya (Some n)
          else set_right (set_parent s0 n (cparent fs)) ya (Some n))"
  have lt: "list_all (\<lambda>a. a < n) (abefore fs @ aafter fs)" and nf: "NIL s < n"
    using R unfolding T n_def represents_def addrs_plug by simp_all
  have R2: "represents s2 (plug fs ?new)"
    unfolding s2_def
  proof (rule attach_represents)
    show "represents s0 (plug fs Tip)" using R0 T by simp
    show "key (heap s0 n) = Some x" "color (heap s0 n) = RED" "left (heap s0 n) = Some (NIL s0)"
      "right (heap s0 n) = Some (NIL s0)" by (simp_all add: h0 m0)
    show "n \<notin> set (abefore fs @ aafter fs)" using lt by (auto simp: list_all_iff)
    show "n \<noteq> NIL s0" using nf m0 by simp
    show "n < fresh s0" using m0 by simp
    show "list_all (dir_ok x) fs" unfolding fs_def by (rule descend_dirs) simp
  qed
  have m2: "NIL s2 = NIL s" "fresh s2 = Suc n"
    by (simp_all add: s2_def m0 split: option.split)
  have run: "insertRB s x =
     (case parent (heap s2 n) of
        None \<Rightarrow> Some (Inr (set_color s2 n BLACK))
      | Some p \<Rightarrow> (case parent (heap s2 p) of None \<Rightarrow> Some (Inr s2) | Some g \<Rightarrow> fixInsert s2 n))"
    unfolding insertRB_def s2_def by (simp add: cn de Let_def)
  have pn: "parent (heap s2 n) = cparent fs"
    using represents_cell(5) [OF R2 refl] by simp
  have ke: "keys (plug fs ?new) = ins_keys x T"
    by (simp add: keys_plug ins_keys_def fs_def)
  have iT: "cinv fs 0" "fs \<noteq> [] \<longrightarrow> fcol (last fs) = BLACK"
    using rb inv_plug [of fs Tip] col_plug [of fs Tip] unfolding T rbt_def by (auto split: if_splits)
  show ?thesis
  proof (cases fs)
    case Nil
    have "represents (set_color s2 n BLACK) (plug [] (Bin Tip n BLACK x Tip))"
      by (rule set_color_represents [OF R2]) (simp add: Nil)
    moreover have "insertRB s x = Some (Inr (set_color s2 n BLACK))"
      using run pn Nil by simp
    moreover have "rbt (Bin Tip n BLACK x Tip)" by (simp add: rbt_def)
    ultimately show ?thesis using ke Nil m2 n_def
      by (intro exI [of _ "set_color s2 n BLACK"] exI [of _ "Bin Tip n BLACK x Tip"]) simp
  next
    case (Cons f fs1)
    have pf: "parent (heap s2 (faddr f)) = cparent fs1"
      using represents_frame_cell(2) [of s2 f fs1 ?new] R2 Cons by simp
    show ?thesis
    proof (cases fs1)
      case Nil
      have ru: "insertRB s x = Some (Inr s2)"
        using run pn pf Cons Nil by simp
      have "fcol f = BLACK" using iT(2) Cons Nil by simp
      then have "invc (plug fs ?new) \<and> invh (plug fs ?new)" "col (plug fs ?new) = BLACK"
        unfolding inv_plug col_plug using iT(1) Cons Nil by simp_all
      then have "rbt (plug fs ?new)" by (simp add: rbt_def)
      then show ?thesis using ru R2 ke m2 n_def
        by (intro exI [of _ s2] exI [of _ "plug fs ?new"]) simp
    next
      case (Cons f' fs2)
      have ru: "insertRB s x = fixInsert s2 n"
        using run pn pf \<open>fs = f # fs1\<close> Cons by simp
      from fixInsert_ok [OF R2] iT obtain s' T' where
        "fixInsert s2 n = Some (Inr s')" "represents s' T'" "rbt T'"
        "keys T' = keys (plug fs ?new)" "NIL s' = NIL s2" "fresh s' = fresh s2"
        by auto
      then show ?thesis using ru ke m2 n_def
        by (intro exI [of _ s'] exI [of _ T']) simp
    qed
  qed
qed

lemma mset_ins_keys: "mset (ins_keys x t) = add_mset x (mset (keys t))"
proof -
  have "mset (keys t) = mset (kbefore (descend x [] t)) + mset (kafter (descend x [] t))"
    using keys_descend [of x "[]" t] by (metis mset_append plug.simps(1))
  then show ?thesis by (simp add: ins_keys_def)
qed

lemma sorted_ins_keys:
  assumes "sorted (keys t)"
  shows "sorted (ins_keys x t)"
proof -
  let ?fs = "descend x [] t"
  have b: "(\<forall>y\<in>set (kbefore ?fs). y \<le> x) \<and> (\<forall>y\<in>set (kafter ?fs). x < y)"
    by (rule descend_bounds) (use assms in simp_all)
  have "sorted (kbefore ?fs @ kafter ?fs)"
    using assms keys_descend [of x "[]" t] by simp
  then show ?thesis
    using b unfolding ins_keys_def by (auto simp: sorted_append less_imp_le)
qed

subsection \<open>Traversals and queries\<close>

lemma inorderTraversalHelper_ok:
  assumes "rep (heap s) (NIL s) t q" and "NIL s \<notin> set (addrs t)"
  shows "inorderTraversalHelper s (Some (addr_of (NIL s) t)) acc
         = Some (Inr (acc @ map Some (keys t)))"
  using assms
proof (induction t arbitrary: q acc)
  case Tip
  then show ?case by (subst inorderTraversalHelper.simps) simp
next
  case (Bin l a c k r)
  have 1: "inorderTraversalHelper s (Some (addr_of (NIL s) l)) acc
           = Some (Inr (acc @ map Some (keys l)))"
    by (rule Bin.IH(1) [of "Some a"]) (use Bin.prems in simp_all)
  have 2: "inorderTraversalHelper s (Some (addr_of (NIL s) r)) (acc @ map Some (keys l) @ [Some k])
           = Some (Inr ((acc @ map Some (keys l) @ [Some k]) @ map Some (keys r)))"
    by (rule Bin.IH(2) [of "Some a"]) (use Bin.prems in simp_all)
  show ?case
    using Bin.prems 1 2 by (subst inorderTraversalHelper.simps) simp
qed

lemma preorderTraversalHelper_ok:
  assumes "rep (heap s) (NIL s) t q" and "NIL s \<notin> set (addrs t)"
  shows "preorderTraversalHelper s (Some (addr_of (NIL s) t)) acc
         = Some (Inr (acc @ map Some (preorder t)))"
  using assms
proof (induction t arbitrary: q acc)
  case Tip
  then show ?case by (subst preorderTraversalHelper.simps) simp
next
  case (Bin l a c k r)
  have 1: "preorderTraversalHelper s (Some (addr_of (NIL s) l)) (acc @ [Some k])
           = Some (Inr ((acc @ [Some k]) @ map Some (preorder l)))"
    by (rule Bin.IH(1) [of "Some a"]) (use Bin.prems in simp_all)
  have 2: "preorderTraversalHelper s (Some (addr_of (NIL s) r)) ((acc @ [Some k]) @ map Some (preorder l))
           = Some (Inr (((acc @ [Some k]) @ map Some (preorder l)) @ map Some (preorder r)))"
    by (rule Bin.IH(2) [of "Some a"]) (use Bin.prems in simp_all)
  show ?case
    using Bin.prems 1 2 by (subst preorderTraversalHelper.simps) simp
qed

lemma postorderTraversalHelper_ok:
  assumes "rep (heap s) (NIL s) t q" and "NIL s \<notin> set (addrs t)"
  shows "postorderTraversalHelper s (Some (addr_of (NIL s) t)) acc
         = Some (Inr (acc @ map Some (postorder t)))"
  using assms
proof (induction t arbitrary: q acc)
  case Tip
  then show ?case by (subst postorderTraversalHelper.simps) simp
next
  case (Bin l a c k r)
  have 1: "postorderTraversalHelper s (Some (addr_of (NIL s) l)) acc
           = Some (Inr (acc @ map Some (postorder l)))"
    by (rule Bin.IH(1) [of "Some a"]) (use Bin.prems in simp_all)
  have 2: "postorderTraversalHelper s (Some (addr_of (NIL s) r)) (acc @ map Some (postorder l))
           = Some (Inr ((acc @ map Some (postorder l)) @ map Some (postorder r)))"
    by (rule Bin.IH(2) [of "Some a"]) (use Bin.prems in simp_all)
  show ?case
    using Bin.prems 1 2 by (subst postorderTraversalHelper.simps) simp
qed

lemma getDepthHelper_ok:
  assumes "rep (heap s) (NIL s) t q" and "NIL s \<notin> set (addrs t)"
  shows "getDepthHelper s (Some (addr_of (NIL s) t)) = Some (Inr (height t))"
  using assms
proof (induction t arbitrary: q)
  case Tip
  then show ?case by (subst getDepthHelper.simps) simp
next
  case (Bin l a c k r)
  have 1: "getDepthHelper s (Some (addr_of (NIL s) l)) = Some (Inr (height l))"
    by (rule Bin.IH(1) [of "Some a"]) (use Bin.prems in simp_all)
  have 2: "getDepthHelper s (Some (addr_of (NIL s) r)) = Some (Inr (height r))"
    by (rule Bin.IH(2) [of "Some a"]) (use Bin.prems in simp_all)
  show ?case
    using Bin.prems 1 2 by (subst getDepthHelper.simps) simp
qed

lemma searchHelper_ok:
  assumes "rep (heap s) (NIL s) t q" and "NIL s \<notin> set (addrs t)" and "sorted (keys t)"
  shows "\<exists>a. searchHelper s (Some (addr_of (NIL s) t)) x = Some (Inr a)
     \<and> (if x \<in> set (keys t) then a \<in> set (addrs t) \<and> key (heap s a) = Some x else a = NIL s)"
  using assms
proof (induction t arbitrary: q)
  case Tip
  then show ?case by (subst searchHelper.simps) simp
next
  case (Bin l a c k r)
  have ce: "key (heap s a) = Some k" "left (heap s a) = Some (addr_of (NIL s) l)"
    "right (heap s a) = Some (addr_of (NIL s) r)" "a \<noteq> NIL s"
    using Bin.prems by auto
  have so: "sorted (keys l)" "sorted (keys r)" "\<forall>y\<in>set (keys l). y \<le> k" "\<forall>y\<in>set (keys r). k \<le> y"
    using Bin.prems(3) by (auto simp: sorted_append)
  consider "x = k" | "x < k" | "k < x" by (meson less_linear)
  then show ?case
  proof cases
    case 1
    then show ?thesis using ce by (subst searchHelper.simps) simp
  next
    case 2
    have nr: "x \<notin> set (keys r)" "x \<noteq> k" using so(4) 2 by auto
    from Bin.IH(1) [of "Some a"] Bin.prems so obtain b where
      b: "searchHelper s (Some (addr_of (NIL s) l)) x = Some (Inr b)"
      "if x \<in> set (keys l) then b \<in> set (addrs l) \<and> key (heap s b) = Some x else b = NIL s"
      by auto
    have "searchHelper s (Some a) x = Some (Inr b)"
      using ce 2 b(1) nr(2) by (subst searchHelper.simps) simp
    then show ?thesis using b(2) nr 2 by (auto split: if_splits)
  next
    case 3
    have nl: "x \<notin> set (keys l)" "x \<noteq> k" "\<not> x < k" using so(3) 3 by auto
    from Bin.IH(2) [of "Some a"] Bin.prems so obtain b where
      b: "searchHelper s (Some (addr_of (NIL s) r)) x = Some (Inr b)"
      "if x \<in> set (keys r) then b \<in> set (addrs r) \<and> key (heap s b) = Some x else b = NIL s"
      by auto
    have "searchHelper s (Some a) x = Some (Inr b)"
      using ce nl(2,3) b(1) by (subst searchHelper.simps) simp
    then show ?thesis using b(2) nl 3 by (auto split: if_splits)
  qed
qed

lemma mset_preorder: "mset (preorder t) = mset (keys t)"
  by (induction t) auto

lemma mset_postorder: "mset (postorder t) = mset (keys t)"
  by (induction t) auto

lemma bh_size: "invh t \<Longrightarrow> 2 ^ bh t \<le> length (keys t) + 1"
  by (induction t) auto

lemma height_bh: "invc t \<Longrightarrow> invh t \<Longrightarrow> height t \<le> 2 * bh t + (if col t = BLACK then 0 else 1)"
proof (induction t)
  case Tip
  then show ?case by simp
next
  case (Bin l a c k r)
  then show ?case by (cases c) (auto simp: max_def split: if_splits)
qed

lemma rbt_height_bound:
  assumes "rbt t"
  shows "2 ^ height t \<le> (length (keys t) + 1)\<^sup>2"
proof -
  have "height t \<le> 2 * bh t" using height_bh [of t] assms by (simp add: rbt_def)
  then have "(2::nat) ^ height t \<le> 2 ^ (2 * bh t)" by (simp add: power_increasing)
  also have "\<dots> = (2 ^ bh t)\<^sup>2" by (simp add: power_mult power2_eq_square mult.commute)
  also have "\<dots> \<le> (length (keys t) + 1)\<^sup>2"
    using bh_size [of t] assms by (simp add: rbt_def power_mono)
  finally show ?thesis .
qed

lemma rbt_height_log:
  assumes "rbt t"
  shows "real (height t) \<le> 2 * log 2 (real (length (keys t) + 1))"
proof -
  have "height t \<le> 2 * bh t" using height_bh [of t] assms by (simp add: rbt_def)
  moreover have "real (bh t) \<le> log 2 (real (length (keys t) + 1))"
    by (rule le_log2_of_power) (use bh_size [of t] assms in \<open>simp add: rbt_def\<close>)
  ultimately show ?thesis by linarith
qed

lemma storedI:
  "rep (heap s) (NIL s) t q \<Longrightarrow> t \<noteq> Tip \<Longrightarrow> NIL s \<notin> set (addrs t) \<Longrightarrow> stored s t"
  by (cases t) (auto simp: stored_def)

lemma levelOrder_loop_ok:
  assumes "list_all (stored s) ts"
  shows "\<exists>ks. levelOrder_loop s (map (\<lambda>t. Some (addr_of (NIL s) t)) ts) acc
               = Some (Inr (acc @ map Some ks))
           \<and> mset ks = mset (concat (map keys ts))"
  using assms
proof (induction "sum_list (map (\<lambda>t. length (keys t)) ts)" arbitrary: ts acc rule: less_induct)
  case less
  show ?case
  proof (cases ts)
    case Nil
    then show ?thesis by (subst levelOrder_loop.simps) simp
  next
    case (Cons t rest)
    have st: "stored s t" "list_all (stored s) rest" using less.prems Cons by simp_all
    then obtain l a c k r where t: "t = Bin l a c k r" by (cases t) (auto simp: stored_def)
    from st(1) t obtain q where ce: "key (heap s a) = Some k"
      "left (heap s a) = Some (addr_of (NIL s) l)" "right (heap s a) = Some (addr_of (NIL s) r)"
      and rl: "rep (heap s) (NIL s) l (Some a)" and rr: "rep (heap s) (NIL s) r (Some a)"
      and nn: "NIL s \<notin> set (addrs l)" "NIL s \<notin> set (addrs r)"
      by (auto simp: stored_def)
    have ln: "(addr_of (NIL s) l = NIL s) = (l = Tip)" "(addr_of (NIL s) r = NIL s) = (r = Tip)"
      using nn by (simp_all add: top_eq_nil)
    let ?ts = "rest @ children t"
    have sc: "list_all (stored s) ?ts"
      using st(2) rl rr nn by (auto simp: t children_def intro: storedI)
    have "sum_list (map (\<lambda>t. length (keys t)) ?ts) < sum_list (map (\<lambda>t. length (keys t)) ts)"
      by (simp add: Cons t children_def)
    from less.hyps [OF this sc, of "acc @ [Some k]"] obtain ks where
      ks: "levelOrder_loop s (map (\<lambda>t. Some (addr_of (NIL s) t)) ?ts) (acc @ [Some k])
           = Some (Inr ((acc @ [Some k]) @ map Some ks))"
      "mset ks = mset (concat (map keys ?ts))"
      by blast
    have "levelOrder_loop s (map (\<lambda>t. Some (addr_of (NIL s) t)) ts) acc
          = levelOrder_loop s (map (\<lambda>t. Some (addr_of (NIL s) t)) ?ts) (acc @ [Some k])"
      by (subst levelOrder_loop.simps) (simp add: Cons t ce ln children_def)
    then have "levelOrder_loop s (map (\<lambda>t. Some (addr_of (NIL s) t)) ts) acc
          = Some (Inr (acc @ map Some (k # ks)))"
      using ks(1) by simp
    moreover have "mset (k # ks) = mset (concat (map keys ts))"
      using ks(2) by (simp add: Cons t children_def)
    ultimately show ?thesis by blast
  qed
qed

lemma getMinimumNode_ok:
  assumes "rep (heap s) (NIL s) t q" and "NIL s \<notin> set (addrs t)" and "t \<noteq> Tip"
  shows "\<exists>a. getMinimumNode s (Some (addr_of (NIL s) t)) = Some (Inr a) \<and> a \<noteq> NIL s
          \<and> key (heap s a) = Some (hd (keys t))"
  using assms
proof (induction t arbitrary: q)
  case Tip
  then show ?case by simp
next
  case (Bin l a c k r)
  have ce: "key (heap s a) = Some k" "left (heap s a) = Some (addr_of (NIL s) l)" "a \<noteq> NIL s"
    using Bin.prems by auto
  have ln: "(addr_of (NIL s) l = NIL s) = (l = Tip)"
    using Bin.prems by (simp add: top_eq_nil)
  show ?case
  proof (cases "l = Tip")
    case True
    then show ?thesis using ce by (subst getMinimumNode.simps) simp
  next
    case False
    from Bin.IH(1) [of "Some a"] Bin.prems False obtain b where
      b: "getMinimumNode s (Some (addr_of (NIL s) l)) = Some (Inr b)" "b \<noteq> NIL s"
      "key (heap s b) = Some (hd (keys l))"
      by auto
    have "keys l \<noteq> []" using False by (cases l) auto
    then have "hd (keys (Bin l a c k r)) = hd (keys l)" by simp
    moreover have "getMinimumNode s (Some a) = Some (Inr b)"
      using ce ln False b(1) by (subst getMinimumNode.simps) simp
    ultimately show ?thesis using b by simp
  qed
qed

lemma getMaximumNode_ok:
  assumes "rep (heap s) (NIL s) t q" and "NIL s \<notin> set (addrs t)" and "t \<noteq> Tip"
  shows "\<exists>a. getMaximumNode s (Some (addr_of (NIL s) t)) = Some (Inr a) \<and> a \<noteq> NIL s
          \<and> key (heap s a) = Some (last (keys t))"
  using assms
proof (induction t arbitrary: q)
  case Tip
  then show ?case by simp
next
  case (Bin l a c k r)
  have ce: "key (heap s a) = Some k" "right (heap s a) = Some (addr_of (NIL s) r)" "a \<noteq> NIL s"
    using Bin.prems by auto
  have ln: "(addr_of (NIL s) r = NIL s) = (r = Tip)"
    using Bin.prems by (simp add: top_eq_nil)
  show ?case
  proof (cases "r = Tip")
    case True
    then show ?thesis using ce by (subst getMaximumNode.simps) simp
  next
    case False
    from Bin.IH(2) [of "Some a"] Bin.prems False obtain b where
      b: "getMaximumNode s (Some (addr_of (NIL s) r)) = Some (Inr b)" "b \<noteq> NIL s"
      "key (heap s b) = Some (last (keys r))"
      by auto
    have "keys r \<noteq> []" using False by (cases r) auto
    then have "last (keys (Bin l a c k r)) = last (keys r)" by simp
    moreover have "getMaximumNode s (Some a) = Some (Inr b)"
      using ce ln False b(1) by (subst getMaximumNode.simps) simp
    ultimately show ?thesis using b by simp
  qed
qed

subsection \<open>Sequences of calls\<close>

lemma new_tree_represents: "represents new_tree Tip"
  by (simp add: represents_def new_tree_def)

lemma clear_represents: "represents s t \<Longrightarrow> represents (clear s) Tip"
  by (simp add: represents_def clear_def)

lemma run_calls_ok:
  assumes "represents s t" and "rbt t" and "sorted (keys t)"
  shows "\<exists>s' t'. run_calls s cs = Some (Inr s') \<and> represents s' t' \<and> rbt t' \<and> sorted (keys t')
           \<and> NIL s' = NIL s"
  using assms
proof (induction cs arbitrary: s t)
  case Nil
  then show ?case by auto
next
  case (Cons c cs)
  show ?case
  proof (cases c)
    case (Insert x)
    from insertRB_ok [OF Cons.prems(1,2), of x] obtain s1 t1 where
      1: "insertRB s x = Some (Inr s1)" "represents s1 t1" "rbt t1" "keys t1 = ins_keys x t"
      "NIL s1 = NIL s"
      by blast
    have "sorted (keys t1)" using 1(4) sorted_ins_keys [OF Cons.prems(3)] by simp
    from Cons.IH [OF 1(2,3) this] show ?thesis using 1(1,5) Insert by auto
  next
    case Clear
    have "represents (clear s) Tip" "rbt (Tip :: 'a shape)" "sorted (keys (Tip :: 'a shape))"
      using Cons.prems(1) by (simp_all add: clear_represents rbt_def)
    from Cons.IH [OF this] show ?thesis using Clear by (auto simp: clear_def)
  qed
qed

lemma run_inserts_ok:
  assumes "represents s t" and "rbt t" and "sorted (keys t)"
  shows "\<exists>s' t'. run_calls s (map Insert ks) = Some (Inr s') \<and> represents s' t' \<and> rbt t'
           \<and> sorted (keys t') \<and> mset (keys t') = mset (keys t) + mset ks \<and> NIL s' = NIL s"
  using assms
proof (induction ks arbitrary: s t)
  case Nil
  then show ?case by auto
next
  case (Cons x ks)
  from insertRB_ok [OF Cons.prems(1,2), of x] obtain s1 t1 where
    1: "insertRB s x = Some (Inr s1)" "represents s1 t1" "rbt t1" "keys t1 = ins_keys x t"
    "NIL s1 = NIL s"
    by blast
  have 2: "sorted (keys t1)" using 1(4) sorted_ins_keys [OF Cons.prems(3)] by simp
  have 3: "mset (keys t1) = add_mset x (mset (keys t))" using 1(4) mset_ins_keys by metis
  from Cons.IH [OF 1(2,3) 2] obtain s' t' where
    "run_calls s1 (map Insert ks) = Some (Inr s')" "represents s' t'" "rbt t'"
    "sorted (keys t')" "mset (keys t') = mset (keys t1) + mset ks" "NIL s' = NIL s1"
    by blast
  then show ?case using 1(1,5) 3 by (intro exI [of _ s'] exI [of _ t']) simp
qed

lemma inserts_ok:
  "\<exists>s t. inserts ks = Some (Inr s) \<and> represents s t \<and> rbt t
       \<and> sorted (keys t) \<and> mset (keys t) = mset ks \<and> NIL s = 0"
  using run_inserts_ok [of new_tree Tip ks] new_tree_represents
  by (simp add: inserts_def rbt_def) (simp add: new_tree_def)

lemma represents_traversals:
  assumes "represents s t"
  shows "inorderTraversal s = Some (Inr (map Some (keys t)))"
    "preorderTraversal s = Some (Inr (map Some (preorder t)))"
    "postorderTraversal s = Some (Inr (map Some (postorder t)))"
    "getDepth s = Some (Inr (height t))"
proof -
  from assms have r: "rep (heap s) (NIL s) t None" "NIL s \<notin> set (addrs t)"
    "root s = addr_of (NIL s) t"
    by (simp_all add: represents_def)
  show "inorderTraversal s = Some (Inr (map Some (keys t)))"
    using inorderTraversalHelper_ok [OF r(1,2), of "[]"] r(3) by (simp add: inorderTraversal_def)
  show "preorderTraversal s = Some (Inr (map Some (preorder t)))"
    using preorderTraversalHelper_ok [OF r(1,2), of "[]"] r(3) by (simp add: preorderTraversal_def)
  show "postorderTraversal s = Some (Inr (map Some (postorder t)))"
    using postorderTraversalHelper_ok [OF r(1,2), of "[]"] r(3) by (simp add: postorderTraversal_def)
  show "getDepth s = Some (Inr (height t))"
    using getDepthHelper_ok [OF r(1,2)] r(3) by (simp add: getDepth_def)
qed

lemma represents_levelOrder:
  assumes "represents s t"
  shows "\<exists>ks. levelOrderTraversal s = Some (Inr (map Some ks)) \<and> mset ks = mset (keys t)"
proof (cases t)
  case Tip
  then show ?thesis using assms by (simp add: levelOrderTraversal_def represents_def)
next
  case (Bin l a c k r)
  from assms have r: "rep (heap s) (NIL s) t None" "NIL s \<notin> set (addrs t)"
    "root s = addr_of (NIL s) t"
    by (simp_all add: represents_def)
  have "list_all (stored s) [t]" using r Bin by (auto intro: storedI)
  from levelOrder_loop_ok [OF this, of "[]"] obtain ks where
    "levelOrder_loop s [Some (addr_of (NIL s) t)] [] = Some (Inr (map Some ks))"
    "mset ks = mset (keys t)"
    by auto
  moreover have "root s \<noteq> NIL s" using r Bin by auto
  ultimately show ?thesis using r(3) by (auto simp: levelOrderTraversal_def)
qed

lemma represents_search:
  assumes "represents s t" and "sorted (keys t)"
  shows "\<exists>a. search s x = Some (Inr a)
     \<and> (if x \<in> set (keys t) then a \<noteq> NIL s \<and> key (heap s a) = Some x else a = NIL s)"
proof -
  from assms have r: "rep (heap s) (NIL s) t None" "NIL s \<notin> set (addrs t)"
    "root s = addr_of (NIL s) t"
    by (simp_all add: represents_def)
  from searchHelper_ok [OF r(1,2) assms(2), of x] obtain a where
    "searchHelper s (Some (addr_of (NIL s) t)) x = Some (Inr a)"
    "if x \<in> set (keys t) then a \<in> set (addrs t) \<and> key (heap s a) = Some x else a = NIL s"
    by blast
  then show ?thesis using r(2,3) by (auto simp: search_def split: if_splits)
qed

lemma focus:
  "a \<in> set (addrs t) \<Longrightarrow> \<exists>fs' l c k r. plug fs t = plug fs' (Bin l a c k r)"
proof (induction t arbitrary: fs)
  case Tip
  then show ?case by simp
next
  case (Bin l b c k r)
  consider "a = b" | "a \<in> set (addrs l)" | "a \<in> set (addrs r)" using Bin.prems by auto
  then show ?case
  proof cases
    case 1
    then show ?thesis by blast
  next
    case 2
    from Bin.IH(1) [OF this, of "LeftOf b c k r # fs"] show ?thesis by simp
  next
    case 3
    from Bin.IH(2) [OF this, of "RightOf l b c k # fs"] show ?thesis by simp
  qed
qed

lemma case2_left_steps:
  assumes R: "represents s (plug (RightOf sib p cp kp # LeftOf g cg kg u # fs) (Bin l k ck kk r))"
    and u: "col u = BLACK"
  shows "\<exists>s1. leftRotate s p = Inr s1
     \<and> represents s1 (plug (LeftOf k ck kk r # LeftOf g cg kg u # fs) (Bin sib p cp kp l))
     \<and> fixInsert_body s k = (case case3_left s1 p of Inl e \<Rightarrow> Inl e | Inr s2 \<Rightarrow> Inr (s2, p))
     \<and> (\<forall>z. color (heap s1 z) = color (heap s z)) \<and> NIL s1 = NIL s"
proof -
  let ?t = "Bin l k ck kk r"
  have pk: "parent (heap s k) = Some p"
    using represents_cell(5) [OF R refl] by simp
  have pp: "parent (heap s p) = Some g" and rp: "right (heap s p) = Some k"
    using represents_cell(4,5) [OF R, of "LeftOf g cg kg u # fs" sib p cp kp ?t] by simp_all
  have cg: "left (heap s g) = Some p" "right (heap s g) = Some (addr_of (NIL s) u)"
    using represents_cell(3,4) [OF R, of fs "Bin sib p cp kp ?t" g cg kg u] by simp_all
  have np: "addr_of (NIL s) u \<noteq> p"
    by (rule represents_addr_neq(3) [OF R, of fs "Bin sib p cp kp ?t" g cg kg u]) simp_all
  have nr: "\<not> (case Some (addr_of (NIL s) u) of None \<Rightarrow> False | Some ua \<Rightarrow> color (heap s ua) = RED)"
    by (rule uncle_not_red [OF R _ u, of "RightOf (Bin sib p cp kp ?t) g cg kg # fs"]) simp
  have R': "represents s (plug (LeftOf g cg kg u # fs) (Bin sib p cp kp (Bin l k ck kk r)))"
    using R by simp
  from leftRotate_represents [OF R'] obtain s1 where
    s1: "leftRotate s p = Inr s1"
    "represents s1 (plug (LeftOf g cg kg u # fs) (Bin (Bin sib p cp kp l) k ck kk r))"
    "\<forall>z. color (heap s1 z) = color (heap s z)" "NIL s1 = NIL s"
    by auto
  have "fixInsert_body s k = (case case3_left s1 p of Inl e \<Rightarrow> Inl e | Inr s2 \<Rightarrow> Inr (s2, p))"
    unfolding fixInsert_body_def using nr np by (simp add: pk pp cg rp s1)
  then show ?thesis using s1 by simp
qed

lemma case2_right_steps:
  assumes R: "represents s (plug (LeftOf p cp kp sib # RightOf u g cg kg # fs) (Bin l k ck kk r))"
    and u: "col u = BLACK"
  shows "\<exists>s1. rightRotate s p = Inr s1
     \<and> represents s1 (plug (RightOf l k ck kk # RightOf u g cg kg # fs) (Bin r p cp kp sib))
     \<and> fixInsert_body s k = (case case3_right s1 p of Inl e \<Rightarrow> Inl e | Inr s2 \<Rightarrow> Inr (s2, p))
     \<and> (\<forall>z. color (heap s1 z) = color (heap s z)) \<and> NIL s1 = NIL s"
proof -
  let ?t = "Bin l k ck kk r"
  have pk: "parent (heap s k) = Some p"
    using represents_cell(5) [OF R refl] by simp
  have pp: "parent (heap s p) = Some g" and lp: "left (heap s p) = Some k"
    using represents_cell(3,5) [OF R, of "RightOf u g cg kg # fs" ?t p cp kp sib] by simp_all
  have cg: "right (heap s g) = Some p" "left (heap s g) = Some (addr_of (NIL s) u)"
    using represents_cell(3,4) [OF R, of fs u g cg kg "Bin ?t p cp kp sib"] by simp_all
  have nr: "\<not> (case Some (addr_of (NIL s) u) of None \<Rightarrow> False | Some ua \<Rightarrow> color (heap s ua) = RED)"
    by (rule uncle_not_red [OF R _ u, of "LeftOf g cg kg (Bin ?t p cp kp sib) # fs"]) simp
  have R': "represents s (plug (RightOf u g cg kg # fs) (Bin (Bin l k ck kk r) p cp kp sib))"
    using R by simp
  from rightRotate_represents [OF R'] obtain s1 where
    s1: "rightRotate s p = Inr s1"
    "represents s1 (plug (RightOf u g cg kg # fs) (Bin l k ck kk (Bin r p cp kp sib)))"
    "\<forall>z. color (heap s1 z) = color (heap s z)" "NIL s1 = NIL s"
    by auto
  have "fixInsert_body s k = (case case3_right s1 p of Inl e \<Rightarrow> Inl e | Inr s2 \<Rightarrow> Inr (s2, p))"
    unfolding fixInsert_body_def using nr by (simp add: pk pp cg lp s1)
  then show ?thesis using s1 by simp
qed

lemma grandchild_focus:
  assumes "represents s t" and "k \<in> set (addrs t)"
    and "parent (heap s k) = Some p" and "parent (heap s p) = Some g"
  shows "\<exists>f1 f2 fs l ck kk r. t = plug (f1 # f2 # fs) (Bin l k ck kk r)
           \<and> faddr f1 = p \<and> faddr f2 = g"
proof -
  from focus [OF assms(2), of "[]"] obtain fs0 l ck kk r where
    t: "t = plug fs0 (Bin l k ck kk r)" by auto
  have "cparent fs0 = Some p" using represents_cell(5) [OF assms(1) t] assms(3) by simp
  then obtain f1 fs1 where fs0: "fs0 = f1 # fs1" "faddr f1 = p" by (cases fs0) auto
  have "cparent fs1 = Some g"
    using represents_frame_cell(2) [of s f1 fs1 "Bin l k ck kk r"] assms(1,4) t fs0 by simp
  then obtain f2 fs2 where "fs1 = f2 # fs2" "faddr f2 = g" by (cases fs1) auto
  then show ?thesis using t fs0 by blast
qed

lemma uncle_black:
  assumes "represents s t" and "t = plug fs u" and "color (heap s (addr_of (NIL s) u)) = BLACK"
  shows "col u = BLACK"
proof (cases u)
  case Tip
  then show ?thesis by simp
next
  case (Bin ul ua uc uk ur)
  then show ?thesis using represents_cell(2) [OF assms(1), of fs ul ua uc uk ur] assms(2,3) by simp
qed

subsection \<open>The checker on the store, and the example stores\<close>

lemma insertRB_attach:
  "insertRB s k =
     (case insert_attach s k of
        None \<Rightarrow> None
      | Some (Inl e) \<Rightarrow> Some (Inl e)
      | Some (Inr (s2, n)) \<Rightarrow>
          (case parent (heap s2 n) of
             None \<Rightarrow> Some (Inr (set_color s2 n BLACK))
           | Some p \<Rightarrow>
               (case parent (heap s2 p) of
                  None \<Rightarrow> Some (Inr s2)
                | Some g \<Rightarrow> fixInsert s2 n)))"
  by (simp add: insertRB_def insert_attach_def Let_def split: prod.split option.split sum.split)

lemma inner_left_reached:
  "(case inserts [3, 1] of
      Some (Inr s) \<Rightarrow>
        (case insert_attach s 2 of
           Some (Inr (s2, n)) \<Rightarrow>
             n = 3 \<and> map (heap s2) [0, 1, 2, 3] = map (heap inner_left) [0, 1, 2, 3]
             \<and> NIL s2 = NIL inner_left \<and> root s2 = root inner_left
             \<and> fresh s2 = fresh inner_left
             \<and> parent (heap s2 n) = Some 2 \<and> parent (heap s2 2) = Some 1
         | _ \<Rightarrow> False)
    | _ \<Rightarrow> False)"
  by code_simp

lemma inner_right_reached:
  "(case inserts [1, 3] of
      Some (Inr s) \<Rightarrow>
        (case insert_attach s 2 of
           Some (Inr (s2, n)) \<Rightarrow>
             n = 3 \<and> map (heap s2) [0, 1, 2, 3] = map (heap inner_right) [0, 1, 2, 3]
             \<and> NIL s2 = NIL inner_right \<and> root s2 = root inner_right
             \<and> fresh s2 = fresh inner_right
             \<and> parent (heap s2 n) = Some 2 \<and> parent (heap s2 2) = Some 1
         | _ \<Rightarrow> False)
    | _ \<Rightarrow> False)"
  by code_simp

lemma height_le_length: "height t \<le> length (addrs t)"
  by (induction t) auto

lemma length_lt_bound:
  assumes "distinct xs" and "list_all (\<lambda>a. a < m) xs" and "z < m" and "z \<notin> set xs"
  shows "length xs < m"
proof -
  have "set xs \<subseteq> {..<m} - {z}" using assms(2,4) by (auto simp: list_all_iff)
  then have "card (set xs) \<le> card ({..<m} - {z})" by (intro card_mono) auto
  also have "\<dots> < m" using assms(3) by (simp add: card_Diff_singleton_if) 
  finally show ?thesis using assms(1) by (simp add: distinct_card)
qed

lemma rb_check_rep:
  assumes "rep (heap s) (NIL s) t q" and "NIL s \<notin> set (addrs t)"
    and "color (heap s (NIL s)) = BLACK" and "invc t" and "invh t" and "height t < n"
  shows "rb_check n s (Some (addr_of (NIL s) t)) = Some (col t, bh t)"
  using assms(1,2,4,5,6)
proof (induction n arbitrary: t q)
  case 0
  then show ?case by simp
next
  case (Suc n)
  show ?case
  proof (cases t)
    case Tip
    then show ?thesis using assms(3) by simp
  next
    case (Bin l a c k r)
    have 1: "rb_check n s (Some (addr_of (NIL s) l)) = Some (col l, bh l)"
      by (rule Suc.IH [of l "Some a"]) (use Suc.prems Bin in auto)
    have 2: "rb_check n s (Some (addr_of (NIL s) r)) = Some (col r, bh r)"
      by (rule Suc.IH [of r "Some a"]) (use Suc.prems Bin in auto)
    show ?thesis using Suc.prems Bin 1 2 by auto
  qed
qed

lemma represents_rb_check:
  assumes "represents s t" and "rbt t"
  shows "rb_check (fresh s) s (Some (root s)) = Some (BLACK, bh t)"
proof -
  from assms(1) have r: "rep (heap s) (NIL s) t None" "NIL s \<notin> set (addrs t)"
    "addr_of (NIL s) t = root s" "distinct (addrs t)" "list_all (\<lambda>a. a < fresh s) (addrs t)"
    "NIL s < fresh s" "heap s (NIL s) = createNilNode"
    by (simp_all add: represents_def)
  have "length (addrs t) < fresh s" by (rule length_lt_bound [OF r(4,5,6,2)])
  then have h: "height t < fresh s" using height_le_length [of t] by simp
  have "color (heap s (NIL s)) = BLACK" using r(7) by (simp add: createNilNode_def)
  from rb_check_rep [OF r(1,2) this _ _ h] assms(2) r(3) show ?thesis
    by (simp add: rbt_def)
qed

text \<open>
  The runs of the demo program and of section 8 of the specification, evaluated on the
  model.
\<close>

lemma demo_run:
  "(case inserts [10, 20, 30, 15, 25, 5, 35, 40, 3, 7 :: int] of
      Some (Inr s) \<Rightarrow>
        inorderTraversal s = Some (Inr (map Some [3, 5, 7, 10, 15, 20, 25, 30, 35, 40]))
        \<and> preorderTraversal s = Some (Inr (map Some [20, 10, 5, 3, 7, 15, 30, 25, 35, 40]))
        \<and> postorderTraversal s = Some (Inr (map Some [3, 7, 5, 15, 10, 25, 40, 35, 30, 20]))
        \<and> levelOrderTraversal s = Some (Inr (map Some [20, 10, 30, 5, 15, 25, 35, 3, 7, 40]))
        \<and> getDepth s = Some (Inr 4)
        \<and> getMinimum s = Some (Inr (Some 3)) \<and> getMaximum s = Some (Inr (Some 40))
        \<and> color (heap s (root s)) = BLACK
    | _ \<Rightarrow> False)"
  by code_simp

lemma ascending_run:
  "(case inserts [1, 2, 3, 4, 5, 6, 7 :: int] of
      Some (Inr s) \<Rightarrow> getDepth s = Some (Inr 4)
    | _ \<Rightarrow> False)"
  by code_simp

lemma single_key_run:
  "(case inserts [42 :: int] of
      Some (Inr s) \<Rightarrow>
        key (heap s (root s)) = Some 42 \<and> color (heap s (root s)) = BLACK
        \<and> left (heap s (root s)) = Some (NIL s) \<and> right (heap s (root s)) = Some (NIL s)
    | _ \<Rightarrow> False)"
  by code_simp

lemma empty_tree_run:
  "getDepth (new_tree :: int RedBlackTree) = Some (Inr 0)
   \<and> isEmpty (new_tree :: int RedBlackTree)
   \<and> inorderTraversal (new_tree :: int RedBlackTree) = Some (Inr [])
   \<and> search (new_tree :: int RedBlackTree) 5 = Some (Inr (NIL (new_tree :: int RedBlackTree)))"
  by code_simp

lemma inner_left_represents:
  "represents inner_left (Bin (Bin Tip 2 RED 1 (Bin Tip 3 RED 2 Tip)) 1 BLACK 3 Tip)"
  by (simp add: represents_def inner_left_def createNilNode_def)

lemma inner_right_represents:
  "represents inner_right (Bin Tip 1 BLACK 1 (Bin (Bin Tip 3 RED 2 Tip) 2 RED 3 Tip))"
  by (simp add: represents_def inner_right_def createNilNode_def)

section \<open>The claims\<close>

text \<open>
  C1.  After any sequence of \<open>insert\<close> calls on a freshly constructed tree, every call
  has returned normally and the store represents a tree that satisfies the red-black
  invariants: the root is black (an empty tree counts as black), no red node has a red
  child, every path from a node down to the sentinel passes the same number of black
  nodes, and the sentinel is black.  That every node is red or black is the type of the
  colour field.  The checker that walks the store from the root agrees.
\<close>

theorem insert_keeps_red_black:
  "\<exists>s t. inserts ks = Some (Inr s) \<and> represents s t
     \<and> col t = BLACK \<and> invc t \<and> invh t \<and> color (heap s (NIL s)) = BLACK
     \<and> rb_check (fresh s) s (Some (root s)) = Some (BLACK, bh t)"
proof -
  from inserts_ok [of ks] obtain s t where
    1: "inserts ks = Some (Inr s)" "represents s t" "rbt t"
    by blast
  have "heap s (NIL s) = createNilNode" using 1(2) by (simp add: represents_def)
  then have "color (heap s (NIL s)) = BLACK" by (simp add: createNilNode_def)
  then show ?thesis using 1 represents_rb_check [OF 1(2,3)] by (auto simp: rbt_def)
qed

theorem insert_keeps_red_black_witness:
  "\<exists>s t. inserts [10, 20, 30, 15, 25, 5, 35, 40, 3, 7 :: int] = Some (Inr s) \<and> represents s t
     \<and> col t = BLACK \<and> invc t \<and> invh t \<and> color (heap s (NIL s)) = BLACK
     \<and> rb_check (fresh s) s (Some (root s)) = Some (BLACK, 2)"
proof -
  from insert_keeps_red_black [of "[10, 20, 30, 15, 25, 5, 35, 40, 3, 7 :: int]"]
  obtain s t where
    1: "inserts [10, 20, 30, 15, 25, 5, 35, 40, 3, 7 :: int] = Some (Inr s)" "represents s t"
    "col t = BLACK" "invc t" "invh t" "color (heap s (NIL s)) = BLACK"
    "rb_check (fresh s) s (Some (root s)) = Some (BLACK, bh t)"
    by blast
  have "case inserts [10, 20, 30, 15, 25, 5, 35, 40, 3, 7 :: int] of
          Some (Inr s) \<Rightarrow> rb_check (fresh s) s (Some (root s)) = Some (BLACK, 2)
        | _ \<Rightarrow> False"
    by code_simp
  then have "rb_check (fresh s) s (Some (root s)) = Some (BLACK, 2)" using 1(1) by simp
  then show ?thesis using 1 by blast
qed

text \<open>
  C2 (as amended).  In the insert fix-up, when the uncle is black and \<open>k\<close> is an inner
  grandchild, the loop rotates \<open>k.parent\<close>: a left rotation when \<open>k.parent\<close> is the
  grandparent's left child and \<open>k\<close> is its right child, a right rotation in the mirrored
  shape.  The rotation returns normally and converts the configuration to Case 3: the old
  parent is then an outer grandchild (the child of \<open>k\<close> on the side on which \<open>k\<close> hangs
  under the grandparent), the uncle and all colours are as before, and the iteration goes
  on with Case 3 at the old parent.
\<close>

theorem case2_rotation_direction:
  assumes "represents s t" and "k \<in> set (addrs t)"
    and "parent (heap s k) = Some p" and "parent (heap s p) = Some g"
  shows "(left (heap s g) = Some p \<and> right (heap s p) = Some k
          \<and> (\<exists>ua. right (heap s g) = Some ua \<and> color (heap s ua) = BLACK) \<longrightarrow>
          (\<exists>s1. leftRotate s p = Inr s1
             \<and> fixInsert_body s k
                 = (case case3_left s1 p of Inl e \<Rightarrow> Inl e | Inr s2 \<Rightarrow> Inr (s2, p))
             \<and> parent (heap s1 p) = Some k \<and> left (heap s1 k) = Some p
             \<and> parent (heap s1 k) = Some g \<and> left (heap s1 g) = Some k
             \<and> right (heap s1 g) = right (heap s g)
             \<and> (\<forall>z. color (heap s1 z) = color (heap s z))))
       \<and> (right (heap s g) = Some p \<and> left (heap s p) = Some k
          \<and> (\<exists>ua. left (heap s g) = Some ua \<and> color (heap s ua) = BLACK) \<longrightarrow>
          (\<exists>s1. rightRotate s p = Inr s1
             \<and> fixInsert_body s k
                 = (case case3_right s1 p of Inl e \<Rightarrow> Inl e | Inr s2 \<Rightarrow> Inr (s2, p))
             \<and> parent (heap s1 p) = Some k \<and> right (heap s1 k) = Some p
             \<and> parent (heap s1 k) = Some g \<and> right (heap s1 g) = Some k
             \<and> left (heap s1 g) = left (heap s g)
             \<and> (\<forall>z. color (heap s1 z) = color (heap s z))))"
proof -
  from grandchild_focus [OF assms] obtain f1 f2 fs l ck kk r where
    t: "t = plug (f1 # f2 # fs) (Bin l k ck kk r)" and f: "faddr f1 = p" "faddr f2 = g"
    by blast
  let ?t = "Bin l k ck kk r"
  note R = assms(1)
  have L: "\<exists>s1. leftRotate s p = Inr s1
             \<and> fixInsert_body s k
                 = (case case3_left s1 p of Inl e \<Rightarrow> Inl e | Inr s2 \<Rightarrow> Inr (s2, p))
             \<and> parent (heap s1 p) = Some k \<and> left (heap s1 k) = Some p
             \<and> parent (heap s1 k) = Some g \<and> left (heap s1 g) = Some k
             \<and> right (heap s1 g) = right (heap s g)
             \<and> (\<forall>z. color (heap s1 z) = color (heap s z))"
    if h: "left (heap s g) = Some p" "right (heap s p) = Some k"
      "right (heap s g) = Some ua" "color (heap s ua) = BLACK" for ua
  proof -
    obtain u cg kg where f2: "f2 = LeftOf g cg kg u"
    proof (cases f2)
      case (LeftOf g' cg kg u)
      then show ?thesis using f that by simp
    next
      case (RightOf u g' cg kg)
      have "left (heap s g) = Some (addr_of (NIL s) u)"
        using represents_cell(3) [OF R, of fs u g cg kg "fill f1 ?t"] t f RightOf by simp
      moreover have "addr_of (NIL s) u \<noteq> p"
        using represents_addr_neq(4) [OF R, of fs u g cg kg "fill f1 ?t" p] t f RightOf
        by (cases f1) auto
      ultimately show ?thesis using h(1) by simp
    qed
    obtain sib cp kp where f1: "f1 = RightOf sib p cp kp"
    proof (cases f1)
      case (RightOf sib p' cp kp)
      then show ?thesis using f that by simp
    next
      case (LeftOf p' cp kp sib)
      have "right (heap s p) = Some (addr_of (NIL s) sib)"
        using represents_cell(4) [OF R, of "f2 # fs" ?t p cp kp sib] t f LeftOf by simp
      moreover have "addr_of (NIL s) sib \<noteq> k"
        using represents_addr_neq(3) [OF R, of "f2 # fs" ?t p cp kp sib k] t f LeftOf by simp
      ultimately show ?thesis using h(2) by simp
    qed
    have R': "represents s (plug (RightOf sib p cp kp # LeftOf g cg kg u # fs) ?t)"
      using R t f1 f2 by simp
    have rg: "right (heap s g) = Some (addr_of (NIL s) u)"
      using represents_cell(4) [OF R', of fs "Bin sib p cp kp ?t" g cg kg u] by simp
    then have cb: "color (heap s (addr_of (NIL s) u)) = BLACK" using h(3,4) by simp
    have u: "col u = BLACK"
      by (rule uncle_black [OF R' _ cb, of "RightOf (Bin sib p cp kp ?t) g cg kg # fs"]) simp
    from case2_left_steps [OF R' u] obtain s1 where
      s1: "leftRotate s p = Inr s1"
      "represents s1 (plug (LeftOf k ck kk r # LeftOf g cg kg u # fs) (Bin sib p cp kp l))"
      "fixInsert_body s k = (case case3_left s1 p of Inl e \<Rightarrow> Inl e | Inr s2 \<Rightarrow> Inr (s2, p))"
      "\<forall>z. color (heap s1 z) = color (heap s z)" "NIL s1 = NIL s"
      by blast
    have "parent (heap s1 p) = Some k"
      using represents_cell(5) [OF s1(2) refl] by simp
    moreover have "left (heap s1 k) = Some p" "parent (heap s1 k) = Some g"
      using represents_cell(3,5) [OF s1(2), of "LeftOf g cg kg u # fs" "Bin sib p cp kp l" k ck kk r]
      by simp_all
    moreover have "left (heap s1 g) = Some k" "right (heap s1 g) = right (heap s g)"
      using represents_cell(3,4) [OF s1(2), of fs "Bin (Bin sib p cp kp l) k ck kk r" g cg kg u]
        rg s1(5)
      by simp_all
    ultimately show ?thesis using s1(1,3,4) by blast
  qed
  have Rr: "\<exists>s1. rightRotate s p = Inr s1
             \<and> fixInsert_body s k
                 = (case case3_right s1 p of Inl e \<Rightarrow> Inl e | Inr s2 \<Rightarrow> Inr (s2, p))
             \<and> parent (heap s1 p) = Some k \<and> right (heap s1 k) = Some p
             \<and> parent (heap s1 k) = Some g \<and> right (heap s1 g) = Some k
             \<and> left (heap s1 g) = left (heap s g)
             \<and> (\<forall>z. color (heap s1 z) = color (heap s z))"
    if h: "right (heap s g) = Some p" "left (heap s p) = Some k"
      "left (heap s g) = Some ua" "color (heap s ua) = BLACK" for ua
  proof -
    obtain u cg kg where f2: "f2 = RightOf u g cg kg"
    proof (cases f2)
      case (RightOf u g' cg kg)
      then show ?thesis using f that by simp
    next
      case (LeftOf g' cg kg u)
      have "right (heap s g) = Some (addr_of (NIL s) u)"
        using represents_cell(4) [OF R, of fs "fill f1 ?t" g cg kg u] t f LeftOf by simp
      moreover have "addr_of (NIL s) u \<noteq> p"
        using represents_addr_neq(3) [OF R, of fs "fill f1 ?t" g cg kg u p] t f LeftOf
        by (cases f1) auto
      ultimately show ?thesis using h(1) by simp
    qed
    obtain sib cp kp where f1: "f1 = LeftOf p cp kp sib"
    proof (cases f1)
      case (LeftOf p' cp kp sib)
      then show ?thesis using f that by simp
    next
      case (RightOf sib p' cp kp)
      have "left (heap s p) = Some (addr_of (NIL s) sib)"
        using represents_cell(3) [OF R, of "f2 # fs" sib p cp kp ?t] t f RightOf by simp
      moreover have "addr_of (NIL s) sib \<noteq> k"
        using represents_addr_neq(4) [OF R, of "f2 # fs" sib p cp kp ?t k] t f RightOf by simp
      ultimately show ?thesis using h(2) by simp
    qed
    have R': "represents s (plug (LeftOf p cp kp sib # RightOf u g cg kg # fs) ?t)"
      using R t f1 f2 by simp
    have lg: "left (heap s g) = Some (addr_of (NIL s) u)"
      using represents_cell(3) [OF R', of fs u g cg kg "Bin ?t p cp kp sib"] by simp
    then have cb: "color (heap s (addr_of (NIL s) u)) = BLACK" using h(3,4) by simp
    have u: "col u = BLACK"
      by (rule uncle_black [OF R' _ cb, of "LeftOf g cg kg (Bin ?t p cp kp sib) # fs"]) simp
    from case2_right_steps [OF R' u] obtain s1 where
      s1: "rightRotate s p = Inr s1"
      "represents s1 (plug (RightOf l k ck kk # RightOf u g cg kg # fs) (Bin r p cp kp sib))"
      "fixInsert_body s k = (case case3_right s1 p of Inl e \<Rightarrow> Inl e | Inr s2 \<Rightarrow> Inr (s2, p))"
      "\<forall>z. color (heap s1 z) = color (heap s z)" "NIL s1 = NIL s"
      by blast
    have "parent (heap s1 p) = Some k"
      using represents_cell(5) [OF s1(2) refl] by simp
    moreover have "right (heap s1 k) = Some p" "parent (heap s1 k) = Some g"
      using represents_cell(4,5) [OF s1(2), of "RightOf u g cg kg # fs" l k ck kk "Bin r p cp kp sib"]
      by simp_all
    moreover have "right (heap s1 g) = Some k" "left (heap s1 g) = left (heap s g)"
      using represents_cell(3,4) [OF s1(2), of fs u g cg kg "Bin l k ck kk (Bin r p cp kp sib)"]
        lg s1(5)
      by simp_all
    ultimately show ?thesis using s1(1,3,4) by blast
  qed
  show ?thesis using L Rr by blast
qed

theorem case2_rotation_direction_witness:
  "(\<exists>s1. leftRotate inner_left 2 = Inr s1
      \<and> fixInsert_body inner_left 3
          = (case case3_left s1 2 of Inl e \<Rightarrow> Inl e | Inr s2 \<Rightarrow> Inr (s2, 2))
      \<and> parent (heap s1 2) = Some 3 \<and> left (heap s1 3) = Some 2
      \<and> parent (heap s1 3) = Some 1 \<and> left (heap s1 1) = Some 3
      \<and> right (heap s1 1) = Some 0
      \<and> (\<forall>z. color (heap s1 z) = color (heap inner_left z)))
   \<and> (\<exists>s1. rightRotate inner_right 2 = Inr s1
      \<and> fixInsert_body inner_right 3
          = (case case3_right s1 2 of Inl e \<Rightarrow> Inl e | Inr s2 \<Rightarrow> Inr (s2, 2))
      \<and> parent (heap s1 2) = Some 3 \<and> right (heap s1 3) = Some 2
      \<and> parent (heap s1 3) = Some 1 \<and> right (heap s1 1) = Some 3
      \<and> left (heap s1 1) = Some 0
      \<and> (\<forall>z. color (heap s1 z) = color (heap inner_right z)))"
proof -
  have 1: "parent (heap inner_left 3) = Some 2" "parent (heap inner_left 2) = Some 1"
    "left (heap inner_left 1) = Some 2" "right (heap inner_left 2) = Some 3"
    "right (heap inner_left 1) = Some 0" "color (heap inner_left 0) = BLACK"
    by (simp_all add: inner_left_def createNilNode_def)
  have 2: "parent (heap inner_right 3) = Some 2" "parent (heap inner_right 2) = Some 1"
    "right (heap inner_right 1) = Some 2" "left (heap inner_right 2) = Some 3"
    "left (heap inner_right 1) = Some 0" "color (heap inner_right 0) = BLACK"
    by (simp_all add: inner_right_def createNilNode_def)
  show ?thesis
    using case2_rotation_direction [OF inner_left_represents _ 1(1,2)]
      case2_rotation_direction [OF inner_right_represents _ 2(1,2)] 1 2
    by simp
qed

text \<open>
  C2 as the specification states it fails.  In \<open>inner_left\<close>, the store that
  \<open>fixInsert\<close> receives in \<open>insert(2)\<close> after \<open>insert(3)\<close> and \<open>insert(1)\<close> (lemma
  \<open>inner_left_reached\<close>), the parent of the new node 3 is the grandparent's left child
  and 3 is its right child; the right rotation of the parent that the sentence prescribes
  raises there (the parent has no left child), whereas the loop body rotates left and
  returns normally.
\<close>

theorem case2_rotation_spec_counterexample:
  "fixInsert_body inner_left 3
   \<noteq> (case case2_rotation_spec inner_left 3 of
        Inl e \<Rightarrow> Inl e
      | Inr s1 \<Rightarrow> (case case3_left s1 2 of Inl e \<Rightarrow> Inl e | Inr s2 \<Rightarrow> Inr (s2, 2)))"
proof -
  have "case2_rotation_spec inner_left 3 = Inl TypeError"
    by (simp add: case2_rotation_spec_def rightRotate_def inner_left_def createNilNode_def
        set_left_def)
  moreover have "\<exists>s'. fixInsert_body inner_left 3 = Inr (s', 2)"
    using fixInsert_body_L2 [of inner_left Tip 2 RED 1 1 BLACK 3 Tip "[]" Tip 3 RED 2 Tip]
      inner_left_represents by auto
  ultimately show ?thesis by auto
qed

text \<open>
  C3 (what the code does).  On an empty tree \<open>getMinimum()\<close> and \<open>getMaximum()\<close> raise a
  \<open>TypeError\<close>: the sentinel's \<open>left\<close> and \<open>right\<close> are \<open>null\<close>, which is not \<open>NIL\<close>, so
  the loops of \<open>getMinimumNode\<close> and \<open>getMaximumNode\<close> step to \<open>null\<close> and read a
  property of it.
\<close>

theorem getMinimum_getMaximum_empty:
  "getMinimum (new_tree :: 'a RedBlackTree) = Some (Inl TypeError)
   \<and> getMaximum (new_tree :: 'a RedBlackTree) = Some (Inl TypeError)"
proof -
  have "getMinimumNode (new_tree :: 'a RedBlackTree) None = Some (Inl TypeError)"
    by (subst getMinimumNode.simps) simp
  then have 1: "getMinimumNode (new_tree :: 'a RedBlackTree) (Some 0) = Some (Inl TypeError)"
    by (subst getMinimumNode.simps) (simp add: new_tree_def createNilNode_def)
  have "getMaximumNode (new_tree :: 'a RedBlackTree) None = Some (Inl TypeError)"
    by (subst getMaximumNode.simps) simp
  then have 2: "getMaximumNode (new_tree :: 'a RedBlackTree) (Some 0) = Some (Inl TypeError)"
    by (subst getMaximumNode.simps) (simp add: new_tree_def createNilNode_def)
  show ?thesis using 1 2 by (simp add: getMinimum_def getMaximum_def new_tree_def)
qed

text \<open>
  C4.  After any sequence of \<open>insert\<close> calls, duplicates included, \<open>inorderTraversal()\<close>
  returns the inserted keys in non-decreasing order.
\<close>

theorem inorderTraversal_sorted:
  "\<exists>s r. inserts ks = Some (Inr s) \<and> inorderTraversal s = Some (Inr (map Some r))
     \<and> sorted r \<and> mset r = mset ks"
proof -
  from inserts_ok [of ks] obtain s t where
    1: "inserts ks = Some (Inr s)" "represents s t" "sorted (keys t)" "mset (keys t) = mset ks"
    by blast
  then show ?thesis using represents_traversals(1) [OF 1(2)] by blast
qed

theorem inorderTraversal_sorted_witness:
  "\<exists>s. inserts [5, 3, 5, 1, 3 :: int] = Some (Inr s)
     \<and> inorderTraversal s = Some (Inr [Some 1, Some 3, Some 3, Some 5, Some 5])"
proof -
  from inorderTraversal_sorted [of "[5, 3, 5, 1, 3 :: int]"] obtain s r where
    1: "inserts [5, 3, 5, 1, 3 :: int] = Some (Inr s)"
    "inorderTraversal s = Some (Inr (map Some r))" "sorted r" "mset r = mset [5, 3, 5, 1, 3]"
    by blast
  have "sort [5, 3, 5, 1, 3 :: int] = r" by (rule properties_for_sort [OF 1(4,3)])
  moreover have "sort [5, 3, 5, 1, 3 :: int] = [1, 3, 3, 5, 5]" by code_simp
  ultimately show ?thesis using 1(1,2) by auto
qed

text \<open>
  C5.  After any sequence of \<open>insert\<close> calls, \<open>search(x)\<close> returns a node other than the
  sentinel whose key is \<open>x\<close> when \<open>x\<close> was inserted, and the sentinel when it was not; it
  never raises.
\<close>

theorem search_correct:
  "\<exists>s. inserts ks = Some (Inr s)
     \<and> (\<forall>x. \<exists>a. search s x = Some (Inr a)
            \<and> (if x \<in> set ks then a \<noteq> NIL s \<and> key (heap s a) = Some x else a = NIL s))"
proof -
  from inserts_ok [of ks] obtain s t where
    1: "inserts ks = Some (Inr s)" "represents s t" "sorted (keys t)" "mset (keys t) = mset ks"
    by blast
  have "set (keys t) = set ks" using 1(4) by (rule mset_eq_setD)
  then show ?thesis using 1(1) represents_search [OF 1(2,3)] by auto
qed

theorem search_correct_witness:
  "\<exists>s a. inserts [10, 20, 30, 15 :: int] = Some (Inr s)
     \<and> search s 15 = Some (Inr a) \<and> a \<noteq> NIL s \<and> key (heap s a) = Some 15
     \<and> search s 100 = Some (Inr (NIL s))"
proof -
  from search_correct [of "[10, 20, 30, 15 :: int]"] obtain s where
    1: "inserts [10, 20, 30, 15 :: int] = Some (Inr s)"
    "\<And>x. \<exists>a. search s x = Some (Inr a)
       \<and> (if x \<in> set [10, 20, 30, 15] then a \<noteq> NIL s \<and> key (heap s a) = Some x
           else a = NIL s)"
    by blast
  from 1(2) [of 15] obtain a where "search s 15 = Some (Inr a)" "a \<noteq> NIL s"
    "key (heap s a) = Some 15"
    by auto
  moreover from 1(2) [of 100] have "search s 100 = Some (Inr (NIL s))" by auto
  ultimately show ?thesis using 1(1) by blast
qed

text \<open>
  C6.  After \<open>n\<close> \<open>insert\<close> calls on a fresh tree, \<open>getDepth()\<close> returns at most
  \<open>2 * log2 (n + 1)\<close>.
\<close>

theorem getDepth_bound:
  "\<exists>s d. inserts ks = Some (Inr s) \<and> getDepth s = Some (Inr d)
     \<and> real d \<le> 2 * log 2 (real (length ks + 1))"
proof -
  from inserts_ok [of ks] obtain s t where
    1: "inserts ks = Some (Inr s)" "represents s t" "rbt t" "mset (keys t) = mset ks"
    by blast
  have "length (keys t) = length ks" using 1(4) by (rule mset_eq_length)
  then have "real (height t) \<le> 2 * log 2 (real (length ks + 1))"
    using rbt_height_log [OF 1(3)] by simp
  then show ?thesis using 1(1) represents_traversals(4) [OF 1(2)] by blast
qed

theorem getDepth_bound_witness:
  "\<exists>s d. inserts [1, 2, 3, 4, 5, 6, 7 :: int] = Some (Inr s) \<and> getDepth s = Some (Inr d)
     \<and> d \<le> 6"
proof -
  from getDepth_bound [of "[1, 2, 3, 4, 5, 6, 7 :: int]"] obtain s d where
    1: "inserts [1, 2, 3, 4, 5, 6, 7 :: int] = Some (Inr s)" "getDepth s = Some (Inr d)"
    "real d \<le> 2 * log 2 (real (length [1, 2, 3, 4, 5, 6, 7 :: int] + 1))"
    by blast
  have "log 2 (2 ^ 3) = (3 :: real)" by (subst log_nat_power) simp_all
  then have "log 2 8 = (3 :: real)" by simp
  then have "real d \<le> 6" using 1(3) by simp
  then have "d \<le> 6" by linarith
  then show ?thesis using 1(1,2) by blast
qed

text \<open>
  C7.  In a store that represents a tree, for a node \<open>x\<close> of the tree whose right child is
  a real node, \<open>leftRotate(x)\<close> returns normally, the in-order traversal is the same before
  and after, and no object's key or colour has changed; likewise \<open>rightRotate(x)\<close> when the
  left child of \<open>x\<close> is a real node.
\<close>

theorem rotations_preserve_inorder:
  assumes "represents s t" and "x \<in> set (addrs t)"
  shows "(right (heap s x) \<noteq> Some (NIL s) \<longrightarrow>
           (\<exists>s'. leftRotate s x = Inr s'
              \<and> inorderTraversal s = Some (Inr (map Some (keys t)))
              \<and> inorderTraversal s' = Some (Inr (map Some (keys t)))
              \<and> (\<forall>z. key (heap s' z) = key (heap s z) \<and> color (heap s' z) = color (heap s z))))
       \<and> (left (heap s x) \<noteq> Some (NIL s) \<longrightarrow>
           (\<exists>s'. rightRotate s x = Inr s'
              \<and> inorderTraversal s = Some (Inr (map Some (keys t)))
              \<and> inorderTraversal s' = Some (Inr (map Some (keys t)))
              \<and> (\<forall>z. key (heap s' z) = key (heap s z) \<and> color (heap s' z) = color (heap s z))))"
proof -
  from focus [OF assms(2), of "[]"] obtain fs l c k r where
    t: "t = plug fs (Bin l x c k r)" by auto
  have ce: "left (heap s x) = Some (addr_of (NIL s) l)" "right (heap s x) = Some (addr_of (NIL s) r)"
    using represents_cell(3,4) [OF assms(1) t] by simp_all
  have nn: "NIL s \<notin> set (addrs l)" "NIL s \<notin> set (addrs r)"
    using assms(1) unfolding t represents_plug by simp_all
  have i0: "inorderTraversal s = Some (Inr (map Some (keys t)))"
    by (rule represents_traversals(1) [OF assms(1)])
  have L: "\<exists>s'. leftRotate s x = Inr s'
              \<and> inorderTraversal s = Some (Inr (map Some (keys t)))
              \<and> inorderTraversal s' = Some (Inr (map Some (keys t)))
              \<and> (\<forall>z. key (heap s' z) = key (heap s z) \<and> color (heap s' z) = color (heap s z))"
    if "right (heap s x) \<noteq> Some (NIL s)"
  proof -
    have "r \<noteq> Tip" using that ce by auto
    then obtain b y cy ky d where r: "r = Bin b y cy ky d" by (cases r) auto
    have "represents s (plug fs (Bin l x c k (Bin b y cy ky d)))" using assms(1) t r by simp
    from leftRotate_represents [OF this] obtain s' where
      s': "leftRotate s x = Inr s'" "represents s' (plug fs (Bin (Bin l x c k b) y cy ky d))"
      "\<forall>z. key (heap s' z) = key (heap s z) \<and> color (heap s' z) = color (heap s z)"
      by blast
    have "keys (plug fs (Bin (Bin l x c k b) y cy ky d)) = keys t"
      by (simp add: t r keys_plug)
    then have "inorderTraversal s' = Some (Inr (map Some (keys t)))"
      using represents_traversals(1) [OF s'(2)] by simp
    then show ?thesis using s'(1,3) i0 by blast
  qed
  have R: "\<exists>s'. rightRotate s x = Inr s'
              \<and> inorderTraversal s = Some (Inr (map Some (keys t)))
              \<and> inorderTraversal s' = Some (Inr (map Some (keys t)))
              \<and> (\<forall>z. key (heap s' z) = key (heap s z) \<and> color (heap s' z) = color (heap s z))"
    if "left (heap s x) \<noteq> Some (NIL s)"
  proof -
    have "l \<noteq> Tip" using that ce by auto
    then obtain a y cy ky b where l: "l = Bin a y cy ky b" by (cases l) auto
    have "represents s (plug fs (Bin (Bin a y cy ky b) x c k r))" using assms(1) t l by simp
    from rightRotate_represents [OF this] obtain s' where
      s': "rightRotate s x = Inr s'" "represents s' (plug fs (Bin a y cy ky (Bin b x c k r)))"
      "\<forall>z. key (heap s' z) = key (heap s z) \<and> color (heap s' z) = color (heap s z)"
      by blast
    have "keys (plug fs (Bin a y cy ky (Bin b x c k r))) = keys t"
      by (simp add: t l keys_plug)
    then have "inorderTraversal s' = Some (Inr (map Some (keys t)))"
      using represents_traversals(1) [OF s'(2)] by simp
    then show ?thesis using s'(1,3) i0 by blast
  qed
  show ?thesis using L R by blast
qed

theorem rotations_preserve_inorder_witness:
  "(\<exists>s'. leftRotate inner_left 2 = Inr s'
      \<and> inorderTraversal inner_left = Some (Inr [Some 1, Some 2, Some 3])
      \<and> inorderTraversal s' = Some (Inr [Some 1, Some 2, Some 3])
      \<and> (\<forall>z. key (heap s' z) = key (heap inner_left z)
             \<and> color (heap s' z) = color (heap inner_left z)))
   \<and> (\<exists>s'. rightRotate inner_left 1 = Inr s'
      \<and> inorderTraversal inner_left = Some (Inr [Some 1, Some 2, Some 3])
      \<and> inorderTraversal s' = Some (Inr [Some 1, Some 2, Some 3])
      \<and> (\<forall>z. key (heap s' z) = key (heap inner_left z)
             \<and> color (heap s' z) = color (heap inner_left z)))"
proof -
  have 1: "right (heap inner_left 2) \<noteq> Some (NIL inner_left)"
    and 2: "left (heap inner_left 1) \<noteq> Some (NIL inner_left)"
    by (simp_all add: inner_left_def)
  show ?thesis
    using rotations_preserve_inorder [OF inner_left_represents, of 2]
      rotations_preserve_inorder [OF inner_left_represents, of 1] 1 2
    by simp
qed

text \<open>
  C8.  After any sequence of \<open>insert\<close> calls, the four traversals return normally, and
  \<open>preorderTraversal()\<close>, \<open>postorderTraversal()\<close> and \<open>levelOrderTraversal()\<close> each return
  the same multiset of keys (so also the same number of keys) as \<open>inorderTraversal()\<close>.
\<close>

theorem traversals_same_keys:
  "\<exists>s i p q l. inserts ks = Some (Inr s)
     \<and> inorderTraversal s = Some (Inr i) \<and> preorderTraversal s = Some (Inr p)
     \<and> postorderTraversal s = Some (Inr q) \<and> levelOrderTraversal s = Some (Inr l)
     \<and> mset p = mset i \<and> mset q = mset i \<and> mset l = mset i
     \<and> length p = length i \<and> length q = length i \<and> length l = length i"
proof -
  from inserts_ok [of ks] obtain s t where
    1: "inserts ks = Some (Inr s)" "represents s t"
    by blast
  from represents_levelOrder [OF 1(2)] obtain lk where
    2: "levelOrderTraversal s = Some (Inr (map Some lk))" "mset lk = mset (keys t)"
    by blast
  note tr = represents_traversals [OF 1(2)]
  have m: "mset (map Some (preorder t)) = mset (map Some (keys t))"
    "mset (map Some (postorder t)) = mset (map Some (keys t))"
    "mset (map Some lk) = mset (map Some (keys t))"
    using 2(2) by (simp_all add: mset_preorder mset_postorder)
  have "length (map Some (preorder t)) = length (map Some (keys t))"
    "length (map Some (postorder t)) = length (map Some (keys t))"
    "length (map Some lk) = length (map Some (keys t))"
    by (rule mset_eq_length, rule m)+
  then show ?thesis using 1(1) tr(1,2,3) 2(1) m by blast
qed

theorem traversals_same_keys_witness:
  "\<exists>s i p q l. inserts [10, 20, 30, 15, 25, 5 :: int] = Some (Inr s)
     \<and> inorderTraversal s = Some (Inr i) \<and> preorderTraversal s = Some (Inr p)
     \<and> postorderTraversal s = Some (Inr q) \<and> levelOrderTraversal s = Some (Inr l)
     \<and> mset p = mset i \<and> mset q = mset i \<and> mset l = mset i
     \<and> length p = length i \<and> length q = length i \<and> length l = length i"
  by (rule traversals_same_keys)

text \<open>
  C9.  \<open>insert\<close> and \<open>clear\<close> are the only public methods that assign anything (the
  queries and traversals assign no field, and their models return no store).  After any
  sequence of \<open>insert\<close> and \<open>clear\<close> calls on a fresh tree the field \<open>NIL\<close> still refers to
  the object created by the constructor, and that object is as \<open>createNilNode\<close> made it:
  black, with \<open>key\<close>, \<open>left\<close>, \<open>right\<close> and \<open>parent\<close> all \<open>null\<close>.
\<close>

theorem sentinel_never_mutated:
  "\<exists>s. run_calls new_tree cs = Some (Inr s)
     \<and> NIL s = NIL (new_tree :: 'a::linorder RedBlackTree)
     \<and> heap s (NIL s) = heap (new_tree :: 'a RedBlackTree) (NIL (new_tree :: 'a RedBlackTree))
     \<and> heap s (NIL s)
        = \<lparr>key = None, color = BLACK, left = None, right = None, parent = None\<rparr>"
proof -
  have "rbt (Tip :: 'a shape)" "sorted (keys (Tip :: 'a shape))" by (simp_all add: rbt_def)
  from run_calls_ok [OF new_tree_represents this, of cs] obtain s t where
    1: "run_calls new_tree cs = Some (Inr s)" "represents s t"
    "NIL s = NIL (new_tree :: 'a RedBlackTree)"
    by blast
  have "heap s (NIL s) = createNilNode" using 1(2) by (simp add: represents_def)
  then show ?thesis using 1(1,3) by (auto simp: new_tree_def createNilNode_def)
qed

theorem sentinel_never_mutated_witness:
  "\<exists>s. run_calls new_tree [Insert 2, Insert 1, Insert (3 :: int), Clear, Insert 5, Insert 4]
        = Some (Inr s)
     \<and> NIL s = NIL (new_tree :: int RedBlackTree)
     \<and> heap s (NIL s) = heap (new_tree :: int RedBlackTree) (NIL (new_tree :: int RedBlackTree))
     \<and> heap s (NIL s)
        = \<lparr>key = None, color = BLACK, left = None, right = None, parent = None\<rparr>"
  by (rule sentinel_never_mutated)

text \<open>
  C10.  For every key and every tree reached by \<open>insert\<close> and \<open>clear\<close> calls on a fresh
  tree, \<open>insert\<close> returns, and returns normally: in particular the descent loop returns
  (it has reached the sentinel) and so does the loop of \<open>fixInsert\<close>.
\<close>

theorem insert_terminates:
  "\<exists>s s' y. run_calls new_tree cs = Some (Inr s)
     \<and> insert_descend (snd (createNode s x)) (Some x) None (Some (root s)) = Some (Inr y)
     \<and> insertRB s x = Some (Inr s')"
proof -
  have "rbt (Tip :: 'a shape)" "sorted (keys (Tip :: 'a shape))" by (simp_all add: rbt_def)
  from run_calls_ok [OF new_tree_represents this, of cs] obtain s t where
    1: "run_calls new_tree cs = Some (Inr s)" "represents s t" "rbt t"
    by blast
  from insertRB_ok [OF 1(2,3), of x] obtain s' where 2: "insertRB s x = Some (Inr s')"
    by blast
  let ?s0 = "snd (createNode s x)"
  have R0: "represents ?s0 (plug [] t)" using createNode_represents(1) [OF 1(2), of x] by simp
  have "addr_of (NIL ?s0) t = root s"
    using R0 createNode_represents(6) [OF 1(2), of x] by (simp add: represents_def)
  then have "insert_descend ?s0 (Some x) None (Some (root s)) = Some (Inr (cparent (descend x [] t)))"
    using insert_descend_ok [OF R0, of x] by simp
  then show ?thesis using 1(1) 2 by blast
qed

theorem insert_terminates_witness:
  "\<exists>s s' y. run_calls new_tree [Insert 2, Insert 1, Clear, Insert (3 :: int)] = Some (Inr s)
     \<and> insert_descend (snd (createNode s 7)) (Some 7) None (Some (root s)) = Some (Inr y)
     \<and> insertRB s 7 = Some (Inr s')"
  by (rule insert_terminates)

end
